theory Spec2Isabelle
  imports Complex_Main "HOL-Library.Sublist"
begin

section \<open>Text: Python strings as lists of code points\<close>

text \<open>
  A Python \<^verbatim>\<open>str\<close> is a sequence of Unicode code points and \<^verbatim>\<open>len\<close> counts them, so a
  text is a list of code points. The regular-expression class \<^verbatim>\<open>\s\<close> and \<^verbatim>\<open>str.strip()\<close>
  both use the interpreter's whitespace table (the characters for which \<^verbatim>\<open>str.isspace\<close>
  holds); the table is part of the interpreter, not of the repository, and is written out
  here. Code point 32 is the space, 10 the newline, 46, 33 and 63 are \<^verbatim>\<open>.\<close>, \<^verbatim>\<open>!\<close>
  and \<^verbatim>\<open>?\<close>.
\<close>

type_synonym pystr = "nat list"

definition is_space :: "nat \<Rightarrow> bool" where
  "is_space c \<longleftrightarrow>
     (9 \<le> c \<and> c \<le> 13) \<or> (28 \<le> c \<and> c \<le> 32) \<or> c = 133 \<or> c = 160 \<or> c = 5760 \<or>
     (8192 \<le> c \<and> c \<le> 8202) \<or> c = 8232 \<or> c = 8233 \<or> c = 8239 \<or> c = 8287 \<or> c = 12288"

text \<open>\<^verbatim>\<open>re.sub(r'\s+', ' ', text)\<close>: every maximal run of whitespace becomes one space.\<close>

function re_sub_spaces :: "pystr \<Rightarrow> pystr" where
  "re_sub_spaces [] = []"
| "re_sub_spaces (c # cs) =
     (if is_space c then 32 # re_sub_spaces (dropWhile is_space cs)
      else c # re_sub_spaces cs)"
  by pat_completeness auto
termination
  by (relation "measure length") (auto simp: less_Suc_eq_le length_dropWhile_le)

text \<open>\<^verbatim>\<open>s.strip()\<close>: leading and trailing whitespace removed.\<close>

definition strip :: "pystr \<Rightarrow> pystr" where
  "strip s = rev (dropWhile is_space (rev (dropWhile is_space s)))"

text \<open>
  \<^verbatim>\<open>text.split('\n\n')\<close>: the pieces between the non-overlapping occurrences of two
  newlines, found from the left; \<open>cur\<close> is the piece being read.
\<close>

fun split_paragraphs :: "pystr \<Rightarrow> pystr \<Rightarrow> pystr list" where
  "split_paragraphs cur (a # b # cs) =
     (if a = 10 \<and> b = 10 then cur # split_paragraphs [] cs
      else split_paragraphs (cur @ [a]) (b # cs))"
| "split_paragraphs cur [a] = [cur @ [a]]"
| "split_paragraphs cur [] = [cur]"

definition is_sentence_end :: "nat \<Rightarrow> bool" where
  "is_sentence_end c \<longleftrightarrow> c = 46 \<or> c = 33 \<or> c = 63"

text \<open>
  \<^verbatim>\<open>re.split(r'(?<=[.!?])\s+', paragraph)\<close>: a separator is a maximal run of whitespace
  that directly follows one of \<^verbatim>\<open>.\<close>, \<^verbatim>\<open>!\<close>, \<^verbatim>\<open>?\<close>; the run is dropped and the
  punctuation stays with the sentence before it.
\<close>

function re_split_sentences :: "pystr \<Rightarrow> pystr \<Rightarrow> pystr list" where
  "re_split_sentences cur [] = [cur]"
| "re_split_sentences cur (c # cs) =
     (if is_sentence_end c \<and> cs \<noteq> [] \<and> is_space (hd cs)
      then (cur @ [c]) # re_split_sentences [] (dropWhile is_space cs)
      else re_split_sentences (cur @ [c]) cs)"
  by pat_completeness auto
termination
  by (relation "measure (\<lambda>(cur, s). length s)")
     (auto simp: less_Suc_eq_le length_dropWhile_le)

section \<open>The chunker: \<^verbatim>\<open>SiteContentScraper.chunk_text\<close>\<close>

text \<open>
  The loop state is the pair of \<^verbatim>\<open>chunks\<close> and \<^verbatim>\<open>current_chunk\<close>. Both the sentence
  branch and the paragraph branch end in the same three lines of the source:
  \<^verbatim>\<open>
      if len(current_chunk) + len(piece) <= self.chunk_size:
          current_chunk += " " + piece
      else:
          if current_chunk:
              chunks.append(current_chunk.strip())
          current_chunk = piece
  \<close>
\<close>

type_synonym chunk_state = "pystr list \<times> pystr"

definition flush :: "chunk_state \<Rightarrow> pystr list" where
  "flush st = (if snd st \<noteq> [] then fst st @ [strip (snd st)] else fst st)"

definition accumulate :: "int \<Rightarrow> chunk_state \<Rightarrow> pystr \<Rightarrow> chunk_state" where
  "accumulate chunk_size st piece =
     (if int (length (snd st)) + int (length piece) \<le> chunk_size
      then (fst st, snd st @ [32] @ piece)
      else (flush st, piece))"

definition paragraph_step :: "int \<Rightarrow> chunk_state \<Rightarrow> pystr \<Rightarrow> chunk_state" where
  "paragraph_step chunk_size st paragraph =
     (if int (length paragraph) > chunk_size * 2
      then foldl (accumulate chunk_size) st (re_split_sentences [] paragraph)
      else accumulate chunk_size st paragraph)"

definition normalize_ws :: "pystr \<Rightarrow> pystr" where
  "normalize_ws text = strip (re_sub_spaces text)"

definition chunk_text :: "int \<Rightarrow> pystr \<Rightarrow> pystr list" where
  "chunk_text chunk_size text =
     (if text = [] then []
      else flush (foldl (paragraph_step chunk_size) ([], [])
                    (split_paragraphs [] (normalize_ws text))))"

text \<open>
  The simplified chunker of the refinement claim, written from the claim's words: the
  whole normalized text is one paragraph, and no loop over paragraphs exists.
\<close>

definition chunk_text_single :: "int \<Rightarrow> pystr \<Rightarrow> pystr list" where
  "chunk_text_single chunk_size text =
     (if text = [] then []
      else flush (paragraph_step chunk_size ([], []) (normalize_ws text)))"

section \<open>Shapes of text\<close>

text \<open>
  Three shapes of text that the proofs about the chunker follow through its steps. A
  text is \<open>loose\<close> when each of its whitespace characters is a space that no whitespace
  follows; it is \<open>solid\<close> when it is not empty and neither begins nor ends with
  whitespace; the buffer of the chunker is \<open>tight\<close> when it is empty, or a solid text,
  or a solid text after one space.
\<close>

fun loose :: "pystr \<Rightarrow> bool" where
  "loose [] = True"
| "loose (c # cs) =
     ((if is_space c then c = 32 \<and> (cs = [] \<or> \<not> is_space (hd cs)) else True) \<and> loose cs)"

definition solid :: "pystr \<Rightarrow> bool" where
  "solid t \<longleftrightarrow> t \<noteq> [] \<and> \<not> is_space (hd t) \<and> \<not> is_space (last t)"

definition tight :: "pystr \<Rightarrow> bool" where
  "tight cur \<longleftrightarrow> cur = [] \<or> solid cur \<or> (hd cur = 32 \<and> solid (tl cur))"

text \<open>
  What is claimed of a passage, with \<open>S\<close> the pieces that may be longer than twice the
  chunk size, and what the state of the chunker keeps from step to step.
\<close>

definition chunk_ok :: "int \<Rightarrow> pystr set \<Rightarrow> pystr \<Rightarrow> bool" where
  "chunk_ok chunk_size S c \<longleftrightarrow> c \<noteq> [] \<and> (int (length c) \<le> 2 * chunk_size \<or> c \<in> S)"

definition state_ok :: "int \<Rightarrow> pystr set \<Rightarrow> chunk_state \<Rightarrow> bool" where
  "state_ok chunk_size S st \<longleftrightarrow>
     tight (snd st) \<and> (\<forall>c\<in>set (fst st). chunk_ok chunk_size S c)
     \<and> (snd st = [] \<or> chunk_ok chunk_size S (strip (snd st)))"

section \<open>Exceptions and small Python operations\<close>

text \<open>
  An exception is known by its message, the text \<^verbatim>\<open>str(e)\<close> that the handlers of the
  source put into their own messages. URLs, titles, identifiers and dictionary keys are
  only compared, tested for a prefix and copied, so they are plain strings; page content,
  passages, prompts and answers, whose length in code points the source measures, are
  lists of code points. \<open>ascii\<close> turns a literal into code points.
\<close>

datatype py_exception = PyExc pystr

fun exn_str :: "py_exception \<Rightarrow> pystr" where
  "exn_str (PyExc msg) = msg"

definition ascii :: "string \<Rightarrow> pystr" where
  "ascii s = map of_char s"

definition bind_exn ::
  "py_exception + 'a \<Rightarrow> ('a \<Rightarrow> py_exception + 'b) \<Rightarrow> py_exception + 'b" where
  "bind_exn r f = (case r of Inl e \<Rightarrow> Inl e | Inr x \<Rightarrow> f x)"

text \<open>\<^verbatim>\<open>d.get(key, default)\<close>, the value under an optional key.\<close>

definition get_or :: "'a option \<Rightarrow> 'a \<Rightarrow> 'a" where
  "get_or v d = (case v of None \<Rightarrow> d | Some x \<Rightarrow> x)"

text \<open>\<^verbatim>\<open>xs[i]\<close> for an index that is not negative: out of range raises.\<close>

definition py_index :: "'a list \<Rightarrow> nat \<Rightarrow> py_exception + 'a" where
  "py_index xs i =
     (if i < length xs then Inr (xs ! i)
      else Inl (PyExc (ascii ''list index out of range'')))"

text \<open>\<^verbatim>\<open>xs[i:j]\<close> for bounds that are not negative.\<close>

definition py_slice :: "nat \<Rightarrow> nat \<Rightarrow> 'a list \<Rightarrow> 'a list" where
  "py_slice i j xs = take (j - i) (drop i xs)"

text \<open>\<^verbatim>\<open>sep.join(parts)\<close>.\<close>

fun join :: "'a list \<Rightarrow> 'a list list \<Rightarrow> 'a list" where
  "join sep [] = []"
| "join sep [x] = x"
| "join sep (x # y # ys) = x @ sep @ join sep (y # ys)"

text \<open>The decimal digits of a number, as an f-string prints it.\<close>

definition digit_char :: "nat \<Rightarrow> char" where
  "digit_char d = ''0123456789'' ! d"

fun str_of_nat :: "nat \<Rightarrow> string" where
  "str_of_nat n =
     (if n < 10 then [digit_char n]
      else str_of_nat (n div 10) @ [digit_char (n mod 10)])"

declare str_of_nat.simps [simp del]

section \<open>Ingestion: \<^verbatim>\<open>VectorStore.load_from_dict\<close>\<close>

text \<open>
  A page of the crawl result is a dictionary read with \<^verbatim>\<open>page.get(key, default)\<close>, so
  every key is optional. The loop variables \<^verbatim>\<open>documents\<close>, \<^verbatim>\<open>metadatas\<close>, \<^verbatim>\<open>ids\<close> and
  \<^verbatim>\<open>doc_id_counter\<close> are the fields of \<open>ingest\<close>. The metadata dictionary of a whole
  page has no key \<^verbatim>\<open>chunk_id\<close>, which is \<open>None\<close> here.
\<close>

record page =
  page_url :: "string option"
  page_title :: "string option"
  page_content :: "pystr option"
  page_chunks :: "pystr list option"

record doc_metadata =
  md_url :: string
  md_title :: string
  md_chunk_id :: "nat option"
  md_is_chunk :: bool

record ingest =
  documents :: "pystr list"
  metadatas :: "doc_metadata list"
  ids :: "string list"
  doc_id_counter :: nat

definition doc_id_of :: "nat \<Rightarrow> string" where
  "doc_id_of n = ''doc_'' @ str_of_nat n"

definition add_chunk :: "page \<Rightarrow> ingest \<Rightarrow> nat \<times> pystr \<Rightarrow> ingest" where
  "add_chunk p st jc =
     st\<lparr>documents := documents st @ [snd jc],
        metadatas := metadatas st @
          [\<lparr>md_url = get_or (page_url p) [], md_title = get_or (page_title p) [],
            md_chunk_id = Some (fst jc), md_is_chunk = True\<rparr>],
        ids := ids st @ [doc_id_of (doc_id_counter st)],
        doc_id_counter := doc_id_counter st + 1\<rparr>"

definition add_whole :: "page \<Rightarrow> ingest \<Rightarrow> pystr \<Rightarrow> ingest" where
  "add_whole p st content =
     st\<lparr>documents := documents st @ [content],
        metadatas := metadatas st @
          [\<lparr>md_url = get_or (page_url p) [], md_title = get_or (page_title p) [],
            md_chunk_id = None, md_is_chunk = False\<rparr>],
        ids := ids st @ [doc_id_of (doc_id_counter st)],
        doc_id_counter := doc_id_counter st + 1\<rparr>"

definition add_page :: "ingest \<Rightarrow> page \<Rightarrow> ingest" where
  "add_page st p =
     (let content = get_or (page_content p) []
      in if length content > 5000
         then foldl (add_chunk p) st (enumerate 0 (get_or (page_chunks p) []))
         else add_whole p st content)"

definition collect_documents :: "page list \<Rightarrow> ingest" where
  "collect_documents pages =
     foldl add_page \<lparr>documents = [], metadatas = [], ids = [], doc_id_counter = 0\<rparr> pages"

text \<open>
  The second loop hands the three lists to \<^verbatim>\<open>collection.add\<close> in slices of twenty, at
  the offsets of \<^verbatim>\<open>range(0, len(documents), batch_size)\<close>. The collection is the list of
  the documents it stores; \<^verbatim>\<open>collection.add\<close> belongs to the storage engine, which is
  outside the repository: whether it raises is the parameter \<open>coll_add\<close>, and a call
  that does not raise stores the batch at the end. An exception leaves the batches
  stored so far in the collection and is raised again with a prefixed message.
\<close>

record stored =
  st_id :: string
  st_document :: pystr
  st_metadata :: doc_metadata

record batch =
  b_documents :: "pystr list"
  b_metadatas :: "doc_metadata list"
  b_ids :: "string list"

definition batch_size :: nat where
  "batch_size = 20"

definition batch_starts :: "nat \<Rightarrow> nat list" where
  "batch_starts n = map (\<lambda>k. k * batch_size) [0..<(n + batch_size - 1) div batch_size]"

definition batch_at :: "ingest \<Rightarrow> nat \<Rightarrow> batch" where
  "batch_at st i =
     \<lparr>b_documents = py_slice i (i + batch_size) (documents st),
      b_metadatas = py_slice i (i + batch_size) (metadatas st),
      b_ids = py_slice i (i + batch_size) (ids st)\<rparr>"

definition batch_items :: "batch \<Rightarrow> stored list" where
  "batch_items b =
     map (\<lambda>(i, d, m). \<lparr>st_id = i, st_document = d, st_metadata = m\<rparr>)
       (zip (b_ids b) (zip (b_documents b) (b_metadatas b)))"

fun add_batches ::
  "(batch \<Rightarrow> py_exception option) \<Rightarrow> batch list \<Rightarrow> stored list
     \<Rightarrow> stored list \<times> py_exception option" where
  "add_batches coll_add [] coll = (coll, None)"
| "add_batches coll_add (b # bs) coll =
     (case coll_add b of
        Some e \<Rightarrow> (coll, Some e)
      | None \<Rightarrow> add_batches coll_add bs (coll @ batch_items b))"

definition load_error :: "py_exception \<Rightarrow> py_exception" where
  "load_error e =
     PyExc (ascii ''Erreur lors du chargement des donn'' @ [233] @ ascii ''es: '' @ exn_str e)"

definition load_from_dict ::
  "(batch \<Rightarrow> py_exception option) \<Rightarrow> page list option \<Rightarrow> stored list
     \<Rightarrow> stored list \<times> py_exception option" where
  "load_from_dict coll_add data_pages coll =
     (let st = collect_documents (get_or data_pages []);
          r = add_batches coll_add
                (map (batch_at st) (batch_starts (length (documents st)))) coll
      in (fst r, map_option load_error (snd r)))"

text \<open>
  The documents of one page in the words of the specification: a page whose content is
  longer than 5000 characters gives its precomputed passages, each tagged as a chunk with
  its ordinal index from 0; any other page gives one document, its whole content, tagged
  as not a chunk. \<open>numbered\<close> gives the documents of a batch their identifiers in order.
\<close>

definition chunk_metadata :: "page \<Rightarrow> nat \<Rightarrow> doc_metadata" where
  "chunk_metadata p j =
     \<lparr>md_url = get_or (page_url p) [], md_title = get_or (page_title p) [],
      md_chunk_id = Some j, md_is_chunk = True\<rparr>"

definition whole_metadata :: "page \<Rightarrow> doc_metadata" where
  "whole_metadata p =
     \<lparr>md_url = get_or (page_url p) [], md_title = get_or (page_title p) [],
      md_chunk_id = None, md_is_chunk = False\<rparr>"

definition page_documents :: "page \<Rightarrow> (pystr \<times> doc_metadata) list" where
  "page_documents p =
     (if length (get_or (page_content p) []) > 5000
      then map (\<lambda>(j, c). (c, chunk_metadata p j)) (enumerate 0 (get_or (page_chunks p) []))
      else [(get_or (page_content p) [], whole_metadata p)])"

definition numbered :: "nat \<Rightarrow> (pystr \<times> doc_metadata) list \<Rightarrow> stored list" where
  "numbered c units =
     map (\<lambda>(k, d, m). \<lparr>st_id = doc_id_of k, st_document = d, st_metadata = m\<rparr>)
       (enumerate c units)"

text \<open>The identifiers of \<open>n\<close> documents numbered from \<open>c\<close>.\<close>

definition id_range :: "nat \<Rightarrow> nat \<Rightarrow> string list" where
  "id_range c n = map doc_id_of [c ..< c + n]"

section \<open>Queries: \<^verbatim>\<open>VectorStore.rag_query\<close> and the search button\<close>

text \<open>
  The index (\<^verbatim>\<open>collection.query\<close>, which also embeds the query text) and the language
  model (\<^verbatim>\<open>chat.completions.create\<close> with the reading of \<^verbatim>\<open>choices[0].message.content\<close>)
  are outside the repository: they are the two fields of the environment, and either
  may raise. The index answers with lists of lists, one inner list per query text.
  Scores are floating-point numbers that the source only copies and compares; they are
  real numbers here.
\<close>

record result_metadata =
  rm_url :: "string option"
  rm_title :: "string option"

record query_results =
  res_documents :: "pystr list list"
  res_metadatas :: "result_metadata list list"
  res_distances :: "real list list option"

record store_env =
  coll_query :: "pystr \<Rightarrow> int \<Rightarrow> py_exception + query_results"
  chat_complete :: "pystr \<Rightarrow> pystr \<Rightarrow> py_exception + pystr"

record source =
  src_content :: pystr
  src_url :: string
  src_title :: string
  src_similarity :: real

record query_result =
  qr_answer :: pystr
  qr_sources :: "source list"

definition source_similarity :: "query_results \<Rightarrow> nat \<Rightarrow> py_exception + real" where
  "source_similarity res i =
     (case res_distances res of
        None \<Rightarrow> Inr 0
      | Some ds \<Rightarrow> bind_exn (py_index ds 0) (\<lambda>d. py_index d i))"

fun make_sources :: "query_results \<Rightarrow> (nat \<times> pystr) list \<Rightarrow> py_exception + source list" where
  "make_sources res [] = Inr []"
| "make_sources res ((i, doc) # rest) =
     bind_exn (py_index (res_metadatas res) 0) (\<lambda>ms.
     bind_exn (py_index ms i) (\<lambda>m.
     bind_exn (source_similarity res i) (\<lambda>sim.
     bind_exn (make_sources res rest) (\<lambda>srcs.
       Inr (\<lparr>src_content = doc, src_url = get_or (rm_url m) [],
             src_title = get_or (rm_title m) ''Sans titre'',
             src_similarity = sim\<rparr> # srcs)))))"

definition context_of :: "source list \<Rightarrow> pystr" where
  "context_of srcs =
     join [10, 10]
       (map (\<lambda>(i, src). ascii ''Source '' @ ascii (str_of_nat (i + 1)) @ ascii '': ''
                          @ src_content src)
          (enumerate 0 srcs))"

definition system_prompt :: pystr where
  "system_prompt =
     ascii ''Vous '' @ [234] @ ascii ''tes un assistant pr'' @ [233]
     @ ascii ''cis et concis. R'' @ [233]
     @ ascii ''pondez directement '' @ [224]
     @ ascii '' la question en vous basant uniquement sur les informations fournies. ''
     @ ascii ''Allez droit au but sans d'' @ [233]
     @ ascii ''tails superflus. Si l'' @ [39] @ ascii ''information n'' @ [39]
     @ ascii ''est pas disponible dans le contexte, dites-le simplement.''"

definition user_prompt :: "pystr \<Rightarrow> pystr \<Rightarrow> pystr" where
  "user_prompt context query =
     ascii ''Contexte:'' @ [10] @ context @ [10, 10] @ ascii ''Question: '' @ query"

definition rag_try :: "store_env \<Rightarrow> pystr \<Rightarrow> int \<Rightarrow> py_exception + query_result" where
  "rag_try env query n_results =
     bind_exn (coll_query env query n_results) (\<lambda>results.
     bind_exn (py_index (res_documents results) 0) (\<lambda>docs.
     bind_exn (make_sources results (enumerate 0 docs)) (\<lambda>srcs.
     bind_exn (chat_complete env system_prompt (user_prompt (context_of srcs) query)) (\<lambda>a.
       Inr \<lparr>qr_answer = a, qr_sources = srcs\<rparr>))))"

definition error_answer :: "py_exception \<Rightarrow> pystr" where
  "error_answer e =
     ascii ''D'' @ [233] @ ascii ''sol'' @ [233] @ ascii '', une erreur s'' @ [39]
     @ ascii ''est produite lors du traitement de votre requ'' @ [234] @ ascii ''te: ''
     @ exn_str e"

definition rag_query :: "store_env \<Rightarrow> pystr \<Rightarrow> int \<Rightarrow> real \<Rightarrow> query_result" where
  "rag_query env query n_results threshold =
     (case rag_try env query n_results of
        Inr r \<Rightarrow> r
      | Inl e \<Rightarrow> \<lparr>qr_answer = error_answer e, qr_sources = []\<rparr>)"

text \<open>
  The handler of the search button in \<^verbatim>\<open>app.py\<close>: a blank question gives a warning and no
  query; otherwise the answer is shown and, under it, the sources
  \<^verbatim>\<open>response["sources"][:3]\<close>. \<open>None\<close> is the warning.
\<close>

record shown =
  shown_answer :: pystr
  shown_sources :: "source list"

definition search_button ::
  "store_env \<Rightarrow> pystr \<Rightarrow> int \<Rightarrow> real \<Rightarrow> shown option" where
  "search_button env question n_results threshold =
     (if strip question \<noteq> []
      then (let response = rag_query env question n_results threshold
            in Some \<lparr>shown_answer = qr_answer response,
                     shown_sources = py_slice 0 3 (qr_sources response)\<rparr>)
      else None)"

text \<open>
  An index of two documents for the examples: it answers every query with both, at the
  distances 0.1 and 0.9, and the language model answers \<^verbatim>\<open>ok\<close>.
\<close>

definition two_results :: query_results where
  "two_results =
     \<lparr>res_documents = [[ascii ''first'', ascii ''second'']],
      res_metadatas = [[\<lparr>rm_url = Some ''u1'', rm_title = Some ''t1''\<rparr>,
                        \<lparr>rm_url = Some ''u2'', rm_title = None\<rparr>]],
      res_distances = Some [[1 / 10, 9 / 10]]\<rparr>"

definition two_env :: store_env where
  "two_env =
     \<lparr>coll_query = (\<lambda>query n_results. Inr two_results),
      chat_complete = (\<lambda>system user. Inr (ascii ''ok''))\<rparr>"

definition two_sources :: "source list" where
  "two_sources =
     [\<lparr>src_content = ascii ''first'', src_url = ''u1'', src_title = ''t1'',
       src_similarity = 1 / 10\<rparr>,
      \<lparr>src_content = ascii ''second'', src_url = ''u2'', src_title = ''Sans titre'',
       src_similarity = 9 / 10\<rparr>]"


section \<open>Parsed XML and the Python operations on it\<close>

text \<open>
  \<^verbatim>\<open>xmltodict.parse\<close> returns nested dictionaries: an element without content is
  \<^verbatim>\<open>None\<close>, an element with text alone is a string, an element with children is a
  dictionary, and children of the same name that occur several times are a list, while a
  child that occurs once is the child itself. The source applies \<^verbatim>\<open>in\<close>, indexing by a
  key, \<^verbatim>\<open>for\<close> and \<^verbatim>\<open>startswith\<close> to these values; each is defined on some shapes
  and raises on the others, and \<open>None\<close> below is the raise. Every handler around them
  is \<^verbatim>\<open>except Exception\<close>, so the kind of the exception does not matter.
\<close>

datatype xml = XNone | XStr string | XDict "(string \<times> xml) list" | XList "xml list"

text \<open>\<^verbatim>\<open>key in x\<close>: a key of a dictionary, a substring of a string, an element of a list.\<close>

fun py_contains :: "string \<Rightarrow> xml \<Rightarrow> bool option" where
  "py_contains key (XDict kvs) = Some (key \<in> set (map fst kvs))"
| "py_contains key (XStr s) = Some (sublist key s)"
| "py_contains key (XList xs) = Some (XStr key \<in> set xs)"
| "py_contains key XNone = None"

text \<open>\<^verbatim>\<open>x[key]\<close> for a string key: only a dictionary that has the key answers.\<close>

fun py_getitem :: "xml \<Rightarrow> string \<Rightarrow> xml option" where
  "py_getitem (XDict kvs) key = map_of kvs key"
| "py_getitem x key = None"

text \<open>
  \<^verbatim>\<open>for e in x\<close>: the elements of a list, the keys of a dictionary, the characters of a
  string.
\<close>

fun py_iter :: "xml \<Rightarrow> xml list option" where
  "py_iter (XList xs) = Some xs"
| "py_iter (XDict kvs) = Some (map (\<lambda>kv. XStr (fst kv)) kvs)"
| "py_iter (XStr s) = Some (map (\<lambda>c. XStr [c]) s)"
| "py_iter XNone = None"

text \<open>
  \<^verbatim>\<open>if '?>' in content: content = content.split('?>', 1)[1]\<close>: what follows the
  first \<^verbatim>\<open>?>\<close>, when there is one.
\<close>

fun after_declaration :: "string \<Rightarrow> string option" where
  "after_declaration (a # b # cs) =
     (if a = CHR ''?'' \<and> b = CHR ''>'' then Some cs else after_declaration (b # cs))"
| "after_declaration cs = None"

definition strip_declaration :: "string \<Rightarrow> string" where
  "strip_declaration content =
     (case after_declaration content of Some rest \<Rightarrow> rest | None \<Rightarrow> content)"

section \<open>The world of the scraper\<close>

text \<open>
  What the network and the browser answer is a parameter of the model. An HTTP response
  has a status code and a content; the content is \<open>None\<close> when \<^verbatim>\<open>decode('utf-8')\<close> raises.
  \<open>http_get\<close> is \<^verbatim>\<open>requests.get\<close> and \<open>xml_parse\<close> is \<^verbatim>\<open>xmltodict.parse\<close>, each
  \<open>None\<close> when it raises. \<open>browser_launch\<close> is the exception, if any, of starting the
  browser and opening a page, which the source does outside its \<^verbatim>\<open>try\<close> blocks.
  \<open>page_links\<close> is, for the crawl, \<^verbatim>\<open>page.goto\<close> followed by the script that
  collects the links of the page, and \<open>page_fetch\<close> is, for the scrape, everything
  between \<^verbatim>\<open>page.goto\<close> and the closing of the browser, which yields title, content
  and meta tags; both are \<open>None\<close> when any step raises. Closing the browser is taken
  not to raise. The world answers the same whenever it is asked the same again.
\<close>

record response =
  status_code :: nat
  resp_content :: "string option"

record world =
  http_get :: "string \<Rightarrow> response option"
  xml_parse :: "string \<Rightarrow> xml option"
  browser_launch :: "py_exception option"
  page_links :: "string \<Rightarrow> string list option"
  page_fetch :: "string \<Rightarrow> (string \<times> pystr \<times> (string \<times> string) list) option"

text \<open>
  What awaiting a coroutine of the scraper comes to: a value, where \<open>Returned None\<close> is
  Python's \<^verbatim>\<open>None\<close> of a function that ends without \<^verbatim>\<open>return\<close>, an exception that
  leaves the coroutine, or nothing at all when the coroutine waits for ever (\<open>Pending\<close>).
  The requests and the steps of the browser have timeouts, so only the semaphore of
  \<^verbatim>\<open>scrape_all_pages\<close> can keep a coroutine waiting.
\<close>

datatype 'a ret = Returned 'a | Raises py_exception | Pending

section \<open>Discovery: \<^verbatim>\<open>fetch_sitemap\<close> and \<^verbatim>\<open>discover_pages_via_crawling\<close>\<close>

text \<open>
  The loop over the \<^verbatim>\<open>url\<close> entries of a urlset, the same lines in both branches of
  \<^verbatim>\<open>fetch_sitemap\<close>. It works on \<^verbatim>\<open>self.pages\<close>; the result is the list afterwards and
  whether the loop ended without an exception (\<^verbatim>\<open>url['loc']\<close> and \<^verbatim>\<open>loc.startswith\<close>
  raise on the wrong shapes). The \<^verbatim>\<open>break\<close> ends this loop only.
\<close>

fun add_urls :: "string \<Rightarrow> int \<Rightarrow> xml list \<Rightarrow> string list \<Rightarrow> string list \<times> bool" where
  "add_urls base_url max_pages [] pages = (pages, True)"
| "add_urls base_url max_pages (url # urls) pages =
     (case py_getitem url ''loc'' of
        Some (XStr loc) \<Rightarrow>
          if prefix base_url loc \<and> loc \<notin> set pages
          then (if int (length (pages @ [loc])) \<ge> max_pages then (pages @ [loc], True)
                else add_urls base_url max_pages urls (pages @ [loc]))
          else add_urls base_url max_pages urls pages
      | _ \<Rightarrow> (pages, False))"

text \<open>
  The lines from \<^verbatim>\<open>if 'urlset' in s and 'url' in s['urlset']:\<close> to the end of the loop:
  \<open>Absent\<close> when the condition is false, \<open>Raised\<close> when an exception leaves them.
\<close>

datatype outcome = Done | Absent | Raised

definition read_urlset ::
  "string \<Rightarrow> int \<Rightarrow> xml \<Rightarrow> string list \<Rightarrow> string list \<times> outcome" where
  "read_urlset base_url max_pages s pages =
     (case py_contains ''urlset'' s of
        None \<Rightarrow> (pages, Raised)
      | Some False \<Rightarrow> (pages, Absent)
      | Some True \<Rightarrow>
         (case py_getitem s ''urlset'' of
            None \<Rightarrow> (pages, Raised)
          | Some urlset \<Rightarrow>
             (case py_contains ''url'' urlset of
                None \<Rightarrow> (pages, Raised)
              | Some False \<Rightarrow> (pages, Absent)
              | Some True \<Rightarrow>
                 (case py_getitem urlset ''url'' of
                    None \<Rightarrow> (pages, Raised)
                  | Some urls \<Rightarrow>
                     (let r = add_urls base_url max_pages
                                (case urls of XList us \<Rightarrow> us | _ \<Rightarrow> [urls]) pages
                      in (fst r, if snd r then Done else Raised))))))"

text \<open>
  One child of a sitemap index, the inner \<^verbatim>\<open>try\<close>: every exception is logged and
  swallowed, and what the loop had appended before it stays in \<^verbatim>\<open>self.pages\<close>.
  \<^verbatim>\<open>requests.get\<close> raises when \<^verbatim>\<open>loc\<close> is not a string.
\<close>

definition child_sitemap :: "world \<Rightarrow> string \<Rightarrow> int \<Rightarrow> xml \<Rightarrow> string list \<Rightarrow> string list" where
  "child_sitemap w base_url max_pages loc pages =
     (case loc of
        XStr l \<Rightarrow>
          (case http_get w l of
             None \<Rightarrow> pages
           | Some sub_response \<Rightarrow>
               if status_code sub_response = 200
               then (case resp_content sub_response of
                       None \<Rightarrow> pages
                     | Some sub_content \<Rightarrow>
                        (case xml_parse w (strip_declaration sub_content) of
                           None \<Rightarrow> pages
                         | Some sub_sitemap \<Rightarrow>
                             fst (read_urlset base_url max_pages sub_sitemap pages)))
               else pages)
      | _ \<Rightarrow> pages)"

text \<open>
  The loop over the entries of a sitemap index. \<^verbatim>\<open>sitemap_entry['loc']\<close> stands before
  the inner \<^verbatim>\<open>try\<close>: when it raises, the exception leaves the loop (\<open>None\<close>).
\<close>

fun index_loop :: "world \<Rightarrow> string \<Rightarrow> int \<Rightarrow> xml list \<Rightarrow> string list \<Rightarrow> string list option" where
  "index_loop w base_url max_pages [] pages = Some pages"
| "index_loop w base_url max_pages (sitemap_entry # entries) pages =
     (case py_getitem sitemap_entry ''loc'' of
        None \<Rightarrow> None
      | Some loc \<Rightarrow>
          index_loop w base_url max_pages entries
            (child_sitemap w base_url max_pages loc pages))"

text \<open>
  The crawl. Its state is \<^verbatim>\<open>visited\<close>, \<^verbatim>\<open>to_visit\<close> and \<^verbatim>\<open>self.pages\<close>. The set
  \<^verbatim>\<open>visited\<close> is a list without repetitions: a link is added only when it is not in
  it, and \<^verbatim>\<open>len(visited)\<close> is the length of the list.
\<close>

type_synonym crawl_state = "string list \<times> string list \<times> string list"

fun add_links :: "string \<Rightarrow> int \<Rightarrow> string list \<Rightarrow> crawl_state \<Rightarrow> crawl_state" where
  "add_links base_url max_pages [] st = st"
| "add_links base_url max_pages (link # links) (visited, to_visit, pages) =
     (if link \<notin> set visited \<and> prefix base_url link
      then (if int (length (pages @ [link])) \<ge> max_pages
            then (link # visited, to_visit @ [link], pages @ [link])
            else add_links base_url max_pages links
                   (link # visited, to_visit @ [link], pages @ [link]))
      else add_links base_url max_pages links (visited, to_visit, pages))"

function crawl_loop ::
  "(string \<Rightarrow> string list option) \<Rightarrow> string \<Rightarrow> int \<Rightarrow> crawl_state \<Rightarrow> string list" where
  "crawl_loop links_of base_url max_pages (visited, to_visit, pages) =
     (case to_visit of
        [] \<Rightarrow> pages
      | current_url # rest \<Rightarrow>
          if int (length visited) < max_pages
          then (case links_of current_url of
                  None \<Rightarrow> crawl_loop links_of base_url max_pages (visited, rest, pages)
                | Some links \<Rightarrow>
                    crawl_loop links_of base_url max_pages
                      (add_links base_url max_pages links (visited, rest, pages)))
          else pages)"
  by pat_completeness auto
termination
proof (relation "measures [\<lambda>(l, b, m, (v, t, p)). nat (m - int (length v)),
                           \<lambda>(l, b, m, (v, t, p)). length t]")
  show "wf (measures [\<lambda>(l, b, m, (v, t, p)). nat (m - int (length v)),
                      \<lambda>(l, b, m, (v, t, p)). length t])"
    by simp
next
  fix links_of :: "string \<Rightarrow> string list option"
  fix base_url :: string and max_pages :: int
  fix visited to_visit pages :: "string list" and current_url :: string and rest :: "string list"
  assume "to_visit = current_url # rest"
  then show "((links_of, base_url, max_pages, visited, rest, pages),
              (links_of, base_url, max_pages, visited, to_visit, pages))
             \<in> measures [\<lambda>(l, b, m, (v, t, p)). nat (m - int (length v)),
                         \<lambda>(l, b, m, (v, t, p)). length t]"
    by simp
next
  fix links_of :: "string \<Rightarrow> string list option"
  fix base_url :: string and max_pages :: int
  fix visited to_visit pages :: "string list" and current_url :: string
  fix rest links :: "string list"
  assume tv: "to_visit = current_url # rest" and lt: "int (length visited) < max_pages"
  have grow: "length v \<le> length (fst (add_links base_url max_pages ls (v, t, p)))
      \<and> (length (fst (add_links base_url max_pages ls (v, t, p))) = length v
           \<longrightarrow> fst (snd (add_links base_url max_pages ls (v, t, p))) = t)"
    for ls v t p
  proof (induction ls arbitrary: v t p)
    case Nil
    show ?case by simp
  next
    case (Cons l ls)
    show ?case
      using Cons [of "l # v" "t @ [l]" "p @ [l]"] Cons [of v t p]
      by auto
  qed
  obtain v' t' p' where st: "add_links base_url max_pages links (visited, rest, pages) = (v', t', p')"
    by (cases "add_links base_url max_pages links (visited, rest, pages)") auto
  from grow [of visited links rest pages] st
  have "length visited < length v' \<or> (length v' = length visited \<and> t' = rest)"
    by auto
  with tv lt st
  show "((links_of, base_url, max_pages,
          add_links base_url max_pages links (visited, rest, pages)),
         (links_of, base_url, max_pages, visited, to_visit, pages))
        \<in> measures [\<lambda>(l, b, m, (v, t, p)). nat (m - int (length v)),
                    \<lambda>(l, b, m, (v, t, p)). length t]"
    by auto
qed

text \<open>
  What the loop of the crawl keeps from round to round: the pages are among the visited
  URLs and are as many as they, each starts with the base URL, and none occurs twice.
\<close>

definition crawl_inv :: "string \<Rightarrow> crawl_state \<Rightarrow> bool" where
  "crawl_inv b st \<longleftrightarrow>
     (case st of (visited, to_visit, pages) \<Rightarrow>
        set pages \<subseteq> set visited \<and> length pages = length visited
        \<and> (\<forall>u\<in>set pages. prefix b u) \<and> distinct pages)"

text \<open>
  \<^verbatim>\<open>discover_pages_via_crawling\<close>: \<^verbatim>\<open>self.pages\<close> is set to the start URL before the
  browser is started, so it holds that one URL when starting the browser raises.
\<close>

definition discover_pages_via_crawling ::
  "world \<Rightarrow> string \<Rightarrow> string \<Rightarrow> int \<Rightarrow> bool option ret \<times> string list" where
  "discover_pages_via_crawling w base_url start_url max_pages =
     (case browser_launch w of
        Some e \<Rightarrow> (Raises e, [start_url])
      | None \<Rightarrow>
          (let pages = crawl_loop (page_links w) base_url max_pages
                         ([start_url], [start_url], [start_url])
           in (Returned (Some (length pages > 0)), pages)))"

text \<open>
  The fallbacks of \<^verbatim>\<open>fetch_sitemap\<close> that stand inside the outer \<^verbatim>\<open>try\<close> (after a
  status other than 200 and in the handler of the inner \<^verbatim>\<open>try\<close>): an exception that
  leaves the crawl there is caught by the outer handler, which starts the crawl again.
\<close>

definition crawl_inside_try ::
  "world \<Rightarrow> string \<Rightarrow> int \<Rightarrow> bool option ret \<times> string list" where
  "crawl_inside_try w base_url max_pages =
     (case discover_pages_via_crawling w base_url base_url max_pages of
        (Raises e, pages) \<Rightarrow> discover_pages_via_crawling w base_url base_url max_pages
      | r \<Rightarrow> r)"

text \<open>
  \<^verbatim>\<open>fetch_sitemap\<close>, from the state \<open>pages\<close> of \<^verbatim>\<open>self.pages\<close>. The result is what the
  method hands back and \<^verbatim>\<open>self.pages\<close> afterwards. When the document is neither a
  sitemap index nor a urlset with \<^verbatim>\<open>url\<close> entries, no \<^verbatim>\<open>return\<close> is reached and the
  method ends with \<^verbatim>\<open>None\<close>.
\<close>

definition sitemap_url :: "string \<Rightarrow> string" where
  "sitemap_url base_url = base_url @ ''/sitemap.xml''"

definition parsed_sitemap ::
  "world \<Rightarrow> string \<Rightarrow> int \<Rightarrow> xml \<Rightarrow> string list \<Rightarrow> bool option ret \<times> string list" where
  "parsed_sitemap w base_url max_pages sitemap pages =
     (case py_contains ''sitemapindex'' sitemap of
        None \<Rightarrow> crawl_inside_try w base_url max_pages
      | Some True \<Rightarrow>
         (case Option.bind (Option.bind (py_getitem sitemap ''sitemapindex'')
                              (\<lambda>x. py_getitem x ''sitemap'')) py_iter of
            None \<Rightarrow> crawl_inside_try w base_url max_pages
          | Some entries \<Rightarrow>
             (case index_loop w base_url max_pages entries pages of
                None \<Rightarrow> crawl_inside_try w base_url max_pages
              | Some pages' \<Rightarrow> (Returned (Some (length pages' > 0)), pages')))
      | Some False \<Rightarrow>
         (case read_urlset base_url max_pages sitemap pages of
            (pages', Done) \<Rightarrow> (Returned (Some (length pages' > 0)), pages')
          | (pages', Absent) \<Rightarrow> (Returned None, pages')
          | (pages', Raised) \<Rightarrow> crawl_inside_try w base_url max_pages))"

definition fetch_sitemap ::
  "world \<Rightarrow> string \<Rightarrow> int \<Rightarrow> string list \<Rightarrow> bool option ret \<times> string list" where
  "fetch_sitemap w base_url max_pages pages =
     (case http_get w (sitemap_url base_url) of
        None \<Rightarrow> discover_pages_via_crawling w base_url base_url max_pages
      | Some response \<Rightarrow>
          if status_code response = 200
          then (case resp_content response of
                  None \<Rightarrow> discover_pages_via_crawling w base_url base_url max_pages
                | Some c \<Rightarrow>
                   (case xml_parse w (strip_declaration c) of
                      None \<Rightarrow> crawl_inside_try w base_url max_pages
                    | Some sitemap \<Rightarrow> parsed_sitemap w base_url max_pages sitemap pages))
          else crawl_inside_try w base_url max_pages)"

section \<open>The crawl: \<^verbatim>\<open>scrape_page\<close> and \<^verbatim>\<open>scrape_all_pages\<close>\<close>

text \<open>
  The fields of the scraper object that the crawl reads are its configuration; the
  timestamp of \<^verbatim>\<open>datetime.now()\<close> is a field of it too.
\<close>

record config =
  cfg_max_concurrent :: int
  cfg_chunk_size :: int
  cfg_domain_name :: string
  cfg_now :: string

record scraped =
  sp_url :: string
  sp_title :: string
  sp_content :: pystr
  sp_chunks :: "pystr list"
  sp_chunk_count :: nat
  sp_metadata :: "(string \<times> string) list"

record crawl_result =
  cr_domain :: string
  cr_domain_name :: string
  cr_total_pages :: nat
  cr_timestamp :: string
  cr_total_chunks :: nat
  cr_pages :: "scraped list"

text \<open>
  \<^verbatim>\<open>scrape_page\<close>: an exception between \<^verbatim>\<open>page.goto\<close> and the end of the \<^verbatim>\<open>try\<close> is
  logged and the method returns \<^verbatim>\<open>None\<close>; an exception of starting the browser leaves
  the method. The dictionary \<^verbatim>\<open>metadata\<close> is the list of its entries as they are
  written, in which a later entry for a key replaces an earlier one.
\<close>

definition scrape_page :: "config \<Rightarrow> world \<Rightarrow> string \<Rightarrow> scraped option ret" where
  "scrape_page cfg w url =
     (case browser_launch w of
        Some e \<Rightarrow> Raises e
      | None \<Rightarrow>
         (case page_fetch w url of
            None \<Rightarrow> Returned None
          | Some (title, text, metadata) \<Rightarrow>
              (let chunks = chunk_text (cfg_chunk_size cfg) text
               in Returned (Some
                    \<lparr>sp_url = url, sp_title = title, sp_content = text, sp_chunks = chunks,
                     sp_chunk_count = length chunks,
                     sp_metadata =
                       [(''source'', cfg_domain_name cfg), (''last_modified'', cfg_now cfg),
                        (''language'', ''fr'')] @ metadata\<rparr>))))"

text \<open>
  \<^verbatim>\<open>pages[:max_pages]\<close>; a negative bound counts from the end of the list.
\<close>

definition py_prefix :: "int \<Rightarrow> 'a list \<Rightarrow> 'a list" where
  "py_prefix n xs = (if 0 \<le> n then take (nat n) xs else take (length xs - nat (- n)) xs)"

definition limit_pages :: "int \<Rightarrow> string list \<Rightarrow> string list" where
  "limit_pages max_pages pages =
     (if int (length pages) > max_pages then py_prefix max_pages pages else pages)"

text \<open>
  \<^verbatim>\<open>semaphore = asyncio.Semaphore(self.max_concurrent)\<close> raises \<^verbatim>\<open>ValueError\<close> for a
  negative value. \<^verbatim>\<open>bounded_scrape\<close> calls \<open>scrape_page\<close> under
  \<^verbatim>\<open>async with semaphore\<close>: a semaphore of value 0 is held by no task, so nothing
  releases it and every task waits for ever; with a positive value every task gets its
  turn, because \<open>scrape_page\<close> ends and the semaphore is released on every way out of
  it.
\<close>

definition semaphore_error :: py_exception where
  "semaphore_error = PyExc (ascii ''Semaphore initial value must be >= 0'')"

definition bounded_scrape :: "config \<Rightarrow> world \<Rightarrow> string \<Rightarrow> scraped option ret" where
  "bounded_scrape cfg w url =
     (if cfg_max_concurrent cfg = 0 then Pending else scrape_page cfg w url)"

text \<open>
  \<^verbatim>\<open>asyncio.gather\<close> hands back the results in the order of the pages, or the exception
  of a task when one raises; with several raising tasks the model takes the first in the
  order of the pages. When no task raises and one waits for ever, so does
  \<^verbatim>\<open>gather\<close>.
\<close>

fun gather :: "'a ret list \<Rightarrow> 'a list ret" where
  "gather [] = Returned []"
| "gather (Raises e # rs) = Raises e"
| "gather (Pending # rs) = (case gather rs of Raises e \<Rightarrow> Raises e | _ \<Rightarrow> Pending)"
| "gather (Returned x # rs) =
     (case gather rs of
        Raises e \<Rightarrow> Raises e
      | Pending \<Rightarrow> Pending
      | Returned xs \<Rightarrow> Returned (x # xs))"

definition successful :: "'a option list \<Rightarrow> 'a list" where
  "successful all_results = concat (map (\<lambda>r. case r of None \<Rightarrow> [] | Some x \<Rightarrow> [x]) all_results)"

definition truthy :: "bool option \<Rightarrow> bool" where
  "truthy v = (case v of None \<Rightarrow> False | Some b \<Rightarrow> b)"

definition scrape_all_pages ::
  "config \<Rightarrow> world \<Rightarrow> string \<Rightarrow> int \<Rightarrow> string list \<Rightarrow> crawl_result option ret" where
  "scrape_all_pages cfg w base_url max_pages pages0 =
     (case fetch_sitemap w base_url max_pages pages0 of
        (Raises e, pages) \<Rightarrow> Raises e
      | (Pending, pages) \<Rightarrow> Pending
      | (Returned found, pages) \<Rightarrow>
          if \<not> truthy found then Returned None
          else if cfg_max_concurrent cfg < 0 then Raises semaphore_error
          else (case gather (map (bounded_scrape cfg w) (limit_pages max_pages pages)) of
                  Raises e \<Rightarrow> Raises e
                | Pending \<Rightarrow> Pending
                | Returned all_results \<Rightarrow>
                    (let successful_results = successful all_results
                     in Returned (Some
                          \<lparr>cr_domain = base_url, cr_domain_name = cfg_domain_name cfg,
                           cr_total_pages = length successful_results,
                           cr_timestamp = cfg_now cfg,
                           cr_total_chunks = sum_list (map sp_chunk_count successful_results),
                           cr_pages = successful_results\<rparr>))))"

text \<open>
  The document at \<^verbatim>\<open>/sitemap.xml\<close> as \<^verbatim>\<open>fetch_sitemap\<close> comes to hold it in
  \<^verbatim>\<open>sitemap\<close>: fetched with status 200, decoded and parsed. It is a sitemap index when
  the test \<^verbatim>\<open>'sitemapindex' in sitemap\<close> is true.
\<close>

definition sitemap_document :: "world \<Rightarrow> string \<Rightarrow> xml option" where
  "sitemap_document w base_url =
     (case http_get w (sitemap_url base_url) of
        None \<Rightarrow> None
      | Some response \<Rightarrow>
          if status_code response = 200
          then Option.bind (resp_content response) (\<lambda>c. xml_parse w (strip_declaration c))
          else None)"

definition is_sitemap_index :: "world \<Rightarrow> string \<Rightarrow> bool" where
  "is_sitemap_index w base_url =
     (case sitemap_document w base_url of
        None \<Rightarrow> False
      | Some sitemap \<Rightarrow> py_contains ''sitemapindex'' sitemap = Some True)"

text \<open>
  The document at the URL of a child sitemap as the loop over the children comes to hold
  it in \<^verbatim>\<open>sub_sitemap\<close>: fetched with status 200, decoded and parsed.
\<close>

definition child_document :: "world \<Rightarrow> string \<Rightarrow> xml option" where
  "child_document w loc =
     (case http_get w loc of
        None \<Rightarrow> None
      | Some sub_response \<Rightarrow>
          if status_code sub_response = 200
          then Option.bind (resp_content sub_response)
                 (\<lambda>sub_content. xml_parse w (strip_declaration sub_content))
          else None)"

text \<open>
  What the parser makes of a urlset with one \<^verbatim>\<open>url\<close> element, and of a sitemap index
  with the children of the given URLs when they are two or more.
\<close>

definition urlset_one :: "string \<Rightarrow> xml" where
  "urlset_one u = XDict [(''urlset'', XDict [(''url'', XDict [(''loc'', XStr u)])])]"

definition index_of :: "string list \<Rightarrow> xml" where
  "index_of locs =
     XDict [(''sitemapindex'',
             XDict [(''sitemap'', XList (map (\<lambda>l. XDict [(''loc'', XStr l)]) locs))])]"

section \<open>A small site for the examples\<close>

text \<open>
  The site \<^verbatim>\<open>https://ex.com\<close> has the pages \<^verbatim>\<open>/a\<close> and \<^verbatim>\<open>/b\<close>, listed in child
  sitemaps, and a home page that links twice to \<^verbatim>\<open>/about\<close> and once to another site.
  The documents are given with what \<^verbatim>\<open>xmltodict.parse\<close> makes of them. The examples differ
  in the document served at \<^verbatim>\<open>/sitemap.xml\<close>, the argument of \<open>site_world\<close>; every
  page fetch of the scrape fails there.
\<close>

definition site :: string where
  "site = ''https://ex.com''"

definition index_two :: string where
  "index_two = ''<sitemapindex><sitemap><loc>https://ex.com/s1.xml</loc></sitemap><sitemap><loc>https://ex.com/s2.xml</loc></sitemap></sitemapindex>''"

definition index_one :: string where
  "index_one = ''<sitemapindex><sitemap><loc>https://ex.com/s12.xml</loc></sitemap></sitemapindex>''"

definition urlset_a :: string where
  "urlset_a = ''<urlset><url><loc>https://ex.com/a</loc></url></urlset>''"

definition urlset_b :: string where
  "urlset_b = ''<urlset><url><loc>https://ex.com/b</loc></url></urlset>''"

definition urlset_ab :: string where
  "urlset_ab = ''<urlset><url><loc>https://ex.com/a</loc></url><url><loc>https://ex.com/b</loc></url></urlset>''"

definition html_page :: string where
  "html_page = ''<html><body>Not found</body></html>''"

definition site_parse :: "string \<Rightarrow> xml option" where
  "site_parse s =
     (if s = index_two then
        Some (XDict [(''sitemapindex'', XDict [(''sitemap'',
                XList [XDict [(''loc'', XStr ''https://ex.com/s1.xml'')],
                       XDict [(''loc'', XStr ''https://ex.com/s2.xml'')]])])])
      else if s = index_one then
        Some (XDict [(''sitemapindex'', XDict [(''sitemap'',
                XDict [(''loc'', XStr ''https://ex.com/s12.xml'')])])])
      else if s = urlset_a then
        Some (XDict [(''urlset'', XDict [(''url'', XDict [(''loc'', XStr ''https://ex.com/a'')])])])
      else if s = urlset_b then
        Some (XDict [(''urlset'', XDict [(''url'', XDict [(''loc'', XStr ''https://ex.com/b'')])])])
      else if s = urlset_ab then
        Some (XDict [(''urlset'', XDict [(''url'',
                XList [XDict [(''loc'', XStr ''https://ex.com/a'')],
                       XDict [(''loc'', XStr ''https://ex.com/b'')]])])])
      else if s = html_page then
        Some (XDict [(''html'', XDict [(''body'', XStr ''Not found'')])])
      else None)"

definition site_get :: "string \<Rightarrow> string \<Rightarrow> response option" where
  "site_get doc u =
     (if u = ''https://ex.com/sitemap.xml'' then Some \<lparr>status_code = 200, resp_content = Some doc\<rparr>
      else if u = ''https://ex.com/s1.xml'' then Some \<lparr>status_code = 200, resp_content = Some urlset_a\<rparr>
      else if u = ''https://ex.com/s2.xml'' then Some \<lparr>status_code = 200, resp_content = Some urlset_b\<rparr>
      else if u = ''https://ex.com/s12.xml'' then Some \<lparr>status_code = 200, resp_content = Some urlset_ab\<rparr>
      else Some \<lparr>status_code = 404, resp_content = Some []\<rparr>)"

definition site_links :: "string \<Rightarrow> string list option" where
  "site_links u =
     (if u = ''https://ex.com''
      then Some [''https://ex.com/about'', ''https://ex.com/about'', ''https://other.org/x'']
      else Some [])"

definition site_world :: "string \<Rightarrow> world" where
  "site_world doc =
     \<lparr>http_get = site_get doc, xml_parse = site_parse, browser_launch = None,
      page_links = site_links, page_fetch = (\<lambda>u. None)\<rparr>"

definition site_config :: config where
  "site_config =
     \<lparr>cfg_max_concurrent = 5, cfg_chunk_size = 500, cfg_domain_name = ''ex.com'', cfg_now = ''2024-01-01''\<rparr>"

text \<open>The same site on a machine where the browser cannot be started.\<close>

definition browser_missing :: py_exception where
  "browser_missing = PyExc (ascii ''Executable does not exist'')"

definition site_world_no_browser :: "string \<Rightarrow> world" where
  "site_world_no_browser doc = (site_world doc)\<lparr>browser_launch := Some browser_missing\<rparr>"

section \<open>Facts about normalization\<close>

lemma set_dropWhile_subset: "set (dropWhile P xs) \<subseteq> set xs"
  by (induction xs) auto

lemma re_sub_spaces_chars:
  "set (re_sub_spaces t) \<subseteq> {32} \<union> {c \<in> set t. \<not> is_space c}"
proof (induction t rule: re_sub_spaces.induct)
  case 1
  show ?case by simp
next
  case (2 c cs)
  show ?case
  proof (cases "is_space c")
    case True
    with 2 have "set (re_sub_spaces (dropWhile is_space cs))
        \<subseteq> {32} \<union> {c \<in> set (dropWhile is_space cs). \<not> is_space c}"
      by simp
    also have "\<dots> \<subseteq> {32} \<union> {c \<in> set cs. \<not> is_space c}"
      using set_dropWhile_subset [of is_space cs] by auto
    finally show ?thesis using True by auto
  next
    case False
    with 2 show ?thesis by auto
  qed
qed

lemma strip_chars: "set (strip s) \<subseteq> set s"
proof -
  have "set (strip s) = set (dropWhile is_space (rev (dropWhile is_space s)))"
    by (simp add: strip_def)
  also have "\<dots> \<subseteq> set (rev (dropWhile is_space s))"
    by (rule set_dropWhile_subset)
  also have "\<dots> \<subseteq> set s"
    using set_dropWhile_subset [of is_space s] by simp
  finally show ?thesis .
qed

lemma newline_is_space: "is_space 10"
  by (simp add: is_space_def)

lemma normalize_no_newline: "10 \<notin> set (normalize_ws text)"
proof
  assume "10 \<in> set (normalize_ws text)"
  then have "10 \<in> set (re_sub_spaces text)"
    using strip_chars [of "re_sub_spaces text"] by (auto simp: normalize_ws_def)
  then have "10 \<in> {32} \<union> {c \<in> set text. \<not> is_space c}"
    using re_sub_spaces_chars [of "text"] by blast
  then show False
    using newline_is_space by auto
qed

lemma split_paragraphs_no_newline:
  "10 \<notin> set t \<Longrightarrow> split_paragraphs cur t = [cur @ t]"
  by (induction cur t rule: split_paragraphs.induct) auto

section \<open>Claims about the chunker\<close>

text \<open>
  Claim C10. For every text and every chunk size, the paragraph split of the normalized
  text yields exactly one paragraph, the normalized text itself, because normalization
  has replaced every newline by a space; so \<open>chunk_text\<close> equals the simplified chunker
  that treats the normalized text as a single paragraph, and the loop over paragraphs
  runs its body exactly once.
\<close>

theorem chunk_text_single_paragraph:
  "split_paragraphs [] (normalize_ws text) = [normalize_ws text]
   \<and> chunk_text chunk_size text = chunk_text_single chunk_size text"
proof -
  have one: "split_paragraphs [] (normalize_ws text) = [normalize_ws text]"
    using split_paragraphs_no_newline [OF normalize_no_newline, of "[]" "text"] by simp
  then show ?thesis
    by (simp add: chunk_text_def chunk_text_single_def)
qed

text \<open>
  Blank input. The guard \<^verbatim>\<open>if not text: return []\<close> is tested before normalization, so
  only the empty string takes it. A text made of whitespace alone normalizes to the empty
  string, which is still joined to the buffer as \<^verbatim>\<open>" " + ""\<close>; the buffer is then a single
  space, it passes the test \<^verbatim>\<open>if current_chunk:\<close> and is appended after \<^verbatim>\<open>strip()\<close>.
\<close>

lemma space_is_space: "is_space 32"
  by (simp add: is_space_def)

lemma re_sub_spaces_all_space:
  "t \<noteq> [] \<Longrightarrow> \<forall>c\<in>set t. is_space c \<Longrightarrow> re_sub_spaces t = [32]"
proof -
  assume ne: "t \<noteq> []" and sp: "\<forall>c\<in>set t. is_space c"
  from ne obtain c cs where t: "t = c # cs" by (cases t) auto
  with sp have d: "dropWhile is_space cs = []" by (simp add: dropWhile_eq_Nil_conv)
  from t sp show ?thesis by (simp add: d)
qed

lemma normalize_all_space:
  "\<forall>c\<in>set t. is_space c \<Longrightarrow> normalize_ws t = []"
  by (cases "t = []")
     (simp_all add: normalize_ws_def strip_def re_sub_spaces_all_space space_is_space)

text \<open>
  Claim C9 (what the code does). \<open>chunk_text\<close> of the empty string is the empty sequence,
  by the guard. For every non-empty text made of whitespace alone and every chunk size
  that is not negative, \<open>chunk_text\<close> returns a sequence of one passage, the empty string,
  not the empty sequence the claim states.
\<close>

theorem chunk_text_whitespace_only:
  assumes "text \<noteq> []" and "\<forall>c\<in>set text. is_space c" and "0 \<le> chunk_size"
  shows "chunk_text chunk_size [] = [] \<and> chunk_text chunk_size text = [[]]"
  using assms
  by (simp add: chunk_text_def normalize_all_space paragraph_step_def accumulate_def flush_def
      strip_def space_is_space)

theorem chunk_text_three_spaces:
  "chunk_text 500 [] = [] \<and> chunk_text 500 [32, 32, 32] = [[]]"
  using chunk_text_whitespace_only [of "[32, 32, 32]" 500]
  by (simp add: space_is_space)

section \<open>Facts about the shapes of text\<close>

lemma sentence_end_not_space: "is_sentence_end c \<Longrightarrow> \<not> is_space c"
  by (auto simp: is_sentence_end_def is_space_def)

lemma loose_suffix: "loose (xs @ ys) \<Longrightarrow> loose ys"
  by (induction xs) auto

lemma loose_prefix: "loose (xs @ ys) \<Longrightarrow> loose xs"
proof (induction xs)
  case Nil
  show ?case by simp
next
  case (Cons x xs)
  then show ?case by (cases xs) (auto split: if_splits)
qed

lemma loose_dropWhile: "loose s \<Longrightarrow> loose (dropWhile P s)"
  using loose_suffix [of "takeWhile P s" "dropWhile P s"] by simp

lemma dropWhile_keeps: "x \<in> set xs \<Longrightarrow> \<not> P x \<Longrightarrow> x \<in> set (dropWhile P xs)"
  by (induction xs) auto

lemma hd_dropWhile_not: "dropWhile P xs \<noteq> [] \<Longrightarrow> \<not> P (hd (dropWhile P xs))"
  by (rule hd_dropWhile)

lemma last_dropWhile: "dropWhile P xs \<noteq> [] \<Longrightarrow> last (dropWhile P xs) = last xs"
  by (induction xs) (auto split: if_splits)

lemma strip_prefix_suffix:
  "\<exists>a b. s = a @ strip s @ b"
proof -
  let ?u = "dropWhile is_space s"
  have "rev ?u = takeWhile is_space (rev ?u) @ dropWhile is_space (rev ?u)"
    by simp
  then have "?u = strip s @ rev (takeWhile is_space (rev ?u))"
    by (metis rev_append rev_rev_ident strip_def)
  moreover have "s = takeWhile is_space s @ ?u"
    by simp
  ultimately show ?thesis
    by metis
qed

lemma loose_strip: "loose s \<Longrightarrow> loose (strip s)"
proof -
  assume l: "loose s"
  obtain a b where "s = a @ strip s @ b"
    using strip_prefix_suffix by blast
  with l have "loose (a @ (strip s @ b))" by simp
  then have "loose (strip s @ b)" by (rule loose_suffix)
  then show ?thesis by (rule loose_prefix)
qed

lemma strip_solid: "strip s \<noteq> [] \<Longrightarrow> solid (strip s)"
proof -
  assume ne: "strip s \<noteq> []"
  let ?u = "dropWhile is_space s"
  let ?v = "dropWhile is_space (rev ?u)"
  from ne have v: "?v \<noteq> []"
    by (simp add: strip_def del: dropWhile_eq_Nil_conv)
  have u: "?u \<noteq> []"
  proof
    assume e: "?u = []"
    have "?v = []" unfolding e by simp
    with v show False by contradiction
  qed
  have "last (strip s) = hd ?v"
    using v by (simp add: strip_def last_rev)
  then have l: "\<not> is_space (last (strip s))"
    using hd_dropWhile_not [OF v] by simp
  have "hd (strip s) = last ?v"
    using v by (simp add: strip_def hd_rev)
  also have "\<dots> = last (rev ?u)"
    using v by (rule last_dropWhile)
  also have "\<dots> = hd ?u"
    using u by (simp add: last_rev)
  finally have "\<not> is_space (hd (strip s))"
    using hd_dropWhile_not [OF u] by simp
  with ne l show ?thesis by (simp add: solid_def)
qed

lemma strip_of_solid: "solid b \<Longrightarrow> strip b = b"
proof -
  assume s: "solid b"
  then have 1: "dropWhile is_space b = b"
    by (cases b) (auto simp: solid_def)
  from s have "dropWhile is_space (rev b) = rev b"
    by (cases "rev b") (auto simp: solid_def last_rev hd_rev)
  with 1 show ?thesis by (simp add: strip_def)
qed

lemma strip_of_tight: "tight cur \<Longrightarrow> cur \<noteq> [] \<Longrightarrow> solid (strip cur) \<and>
    (cur = strip cur \<or> cur = 32 # strip cur)"
proof -
  assume t: "tight cur" and ne: "cur \<noteq> []"
  show ?thesis
  proof (cases "solid cur")
    case True
    then show ?thesis by (simp add: strip_of_solid)
  next
    case False
    with t ne have h: "hd cur = 32" and s: "solid (tl cur)"
      by (auto simp: tight_def)
    from ne h have c: "cur = 32 # tl cur" by (cases cur) auto
    have "strip (32 # tl cur) = strip (tl cur)"
      using s by (simp add: strip_def space_is_space solid_def)
    with c s show ?thesis
      by (metis strip_of_solid)
  qed
qed

lemma re_sub_spaces_keeps:
  "c \<in> set t \<Longrightarrow> \<not> is_space c \<Longrightarrow> c \<in> set (re_sub_spaces t)"
proof (induction t rule: re_sub_spaces.induct)
  case 1
  then show ?case by simp
next
  case (2 d ds)
  show ?case
  proof (cases "is_space d")
    case True
    with "2.prems" have "c \<in> set ds" by auto
    with "2.prems" have "c \<in> set (dropWhile is_space ds)"
      by (simp add: dropWhile_keeps)
    with "2.IH"(1) [OF True] "2.prems" True show ?thesis by simp
  next
    case False
    with "2.IH"(2) "2.prems" show ?thesis by auto
  qed
qed

lemma re_sub_spaces_hd:
  "t \<noteq> [] \<Longrightarrow> \<not> is_space (hd t) \<Longrightarrow> re_sub_spaces t \<noteq> [] \<and> hd (re_sub_spaces t) = hd t"
  by (cases t) auto

lemma loose_re_sub_spaces: "loose (re_sub_spaces t)"
proof (induction t rule: re_sub_spaces.induct)
  case 1
  show ?case by simp
next
  case (2 c cs)
  show ?case
  proof (cases "is_space c")
    case True
    let ?r = "dropWhile is_space cs"
    have "re_sub_spaces ?r = [] \<or> \<not> is_space (hd (re_sub_spaces ?r))"
    proof (cases "?r = []")
      case e: True
      show ?thesis unfolding e by simp
    next
      case False
      from re_sub_spaces_hd [OF False hd_dropWhile_not [OF False]] hd_dropWhile_not [OF False]
      show ?thesis by simp
    qed
    with "2.IH"(1) [OF True] True show ?thesis
      by (simp add: space_is_space)
  next
    case False
    with "2.IH"(2) show ?thesis by simp
  qed
qed

lemma normalize_shape:
  "loose (normalize_ws text) \<and> (normalize_ws text \<noteq> [] \<longrightarrow> solid (normalize_ws text))"
  by (simp add: normalize_ws_def loose_strip loose_re_sub_spaces strip_solid)

lemma normalize_nonempty:
  "c \<in> set text \<Longrightarrow> \<not> is_space c \<Longrightarrow> normalize_ws text \<noteq> []"
proof -
  assume "c \<in> set text" and n: "\<not> is_space c"
  then have "c \<in> set (re_sub_spaces text)"
    by (rule re_sub_spaces_keeps)
  then have "c \<in> set (dropWhile is_space (re_sub_spaces text))"
    using n by (rule dropWhile_keeps)
  then have "c \<in> set (dropWhile is_space (rev (dropWhile is_space (re_sub_spaces text))))"
    using n by (simp add: dropWhile_keeps)
  then have "dropWhile is_space (rev (dropWhile is_space (re_sub_spaces text))) \<noteq> []"
    by (auto simp del: dropWhile_eq_Nil_conv)
  then show ?thesis
    by (simp add: normalize_ws_def strip_def del: dropWhile_eq_Nil_conv)
qed

section \<open>Facts about the sentence split and the accumulation\<close>

lemma join_Cons: "ys \<noteq> [] \<Longrightarrow> join sep (x # ys) = x @ sep @ join sep ys"
  by (cases ys) simp_all

lemma join_append:
  "xs \<noteq> [] \<Longrightarrow> ys \<noteq> [] \<Longrightarrow> join sep (xs @ ys) = join sep xs @ sep @ join sep ys"
proof (induction xs)
  case Nil
  then show ?case by simp
next
  case (Cons x xs)
  show ?case
  proof (cases "xs = []")
    case True
    with Cons.prems show ?thesis by (simp add: join_Cons)
  next
    case False
    with Cons show ?thesis by (simp add: join_Cons)
  qed
qed

lemma join_snoc: "xs \<noteq> [] \<Longrightarrow> join sep (xs @ [s]) = join sep xs @ sep @ s"
  by (simp add: join_append)

lemma re_split_sentences_nonempty: "re_split_sentences cur s \<noteq> []"
  by (induction cur s rule: re_split_sentences.induct) auto

lemma split_point:
  assumes "loose (c # cs)" and "cs \<noteq> []" and "is_space (hd cs)"
    and "\<not> is_space (last (c # cs))"
  shows "\<exists>cs'. cs = 32 # cs' \<and> cs' \<noteq> [] \<and> \<not> is_space (hd cs')
           \<and> dropWhile is_space cs = cs' \<and> loose cs' \<and> last cs' = last (c # cs)"
proof -
  from assms(2) obtain d cs' where cs: "cs = d # cs'" by (cases cs) auto
  with assms(1,3) have d: "d = 32" and nxt: "cs' = [] \<or> \<not> is_space (hd cs')" and l: "loose cs'"
    by auto
  from assms(3,4) cs have ne: "cs' \<noteq> []" by auto
  with nxt have h: "\<not> is_space (hd cs')" by simp
  with ne have "dropWhile is_space cs' = cs'" by (cases cs') auto
  with cs d assms(3) have "dropWhile is_space cs = cs'" by simp
  with cs d ne h l show ?thesis by simp
qed

lemma re_split_sentences_join:
  "loose s \<Longrightarrow> s = [] \<or> \<not> is_space (last s) \<Longrightarrow>
     join [32] (re_split_sentences cur s) = cur @ s"
proof (induction cur s rule: re_split_sentences.induct)
  case (1 cur)
  show ?case by simp
next
  case (2 cur c cs)
  from "2.prems" have last: "\<not> is_space (last (c # cs))" by simp
  show ?case
  proof (cases "is_sentence_end c \<and> cs \<noteq> [] \<and> is_space (hd cs)")
    case True
    from split_point [OF "2.prems"(1) _ _ last] True obtain cs' where
      cs: "cs = 32 # cs'" and ne: "cs' \<noteq> []" and d: "dropWhile is_space cs = cs'"
      and l: "loose cs'" and la: "last cs' = last (c # cs)"
      by blast
    from la last have "dropWhile is_space cs = [] \<or> \<not> is_space (last (dropWhile is_space cs))"
      by (simp only: d) simp
    from "2.IH"(1) [OF True _ this] l d
    have "join [32] (re_split_sentences [] cs') = cs'"
      by simp
    with True d cs show ?thesis
      by (simp add: join_Cons re_split_sentences_nonempty del: dropWhile.simps)
  next
    case False
    from "2.prems"(1) have l: "loose cs" by simp
    from last have "cs = [] \<or> \<not> is_space (last cs)" by auto
    from "2.IH"(2) [OF False l this] False show ?thesis
      by auto
  qed
qed

lemma re_split_sentences_solid:
  "loose s \<Longrightarrow> solid (cur @ s) \<Longrightarrow> \<forall>r\<in>set (re_split_sentences cur s). solid r"
proof (induction cur s rule: re_split_sentences.induct)
  case (1 cur)
  then show ?case by simp
next
  case (2 cur c cs)
  from "2.prems"(2) have last: "\<not> is_space (last (c # cs))"
    by (simp add: solid_def)
  from "2.prems"(2) have first: "\<not> is_space (hd (cur @ [c]))"
    by (cases cur) (simp_all add: solid_def)
  show ?case
  proof (cases "is_sentence_end c \<and> cs \<noteq> [] \<and> is_space (hd cs)")
    case True
    from split_point [OF "2.prems"(1) _ _ last] True obtain cs' where
      cs: "cs = 32 # cs'" and ne: "cs' \<noteq> []" and h: "\<not> is_space (hd cs')"
      and d: "dropWhile is_space cs = cs'"
      and l: "loose cs'" and la: "last cs' = last (c # cs)"
      by blast
    from ne h la last have "solid ([] @ cs')"
      by (simp add: solid_def)
    with "2.IH"(1) [OF True] l d have rest: "\<forall>r\<in>set (re_split_sentences [] cs'). solid r"
      by simp
    from True first have "solid (cur @ [c])"
      by (simp add: solid_def sentence_end_not_space)
    with rest True d show ?thesis
      by (simp del: dropWhile.simps)
  next
    case False
    from "2.prems"(1) have l: "loose cs" by simp
    from "2.prems"(2) have "solid ((cur @ [c]) @ cs)" by simp
    from "2.IH"(2) [OF False l this] False show ?thesis
      by auto
  qed
qed

lemma tight_append:
  assumes "tight cur" and "solid s"
  shows "tight (cur @ [32] @ s)"
    and "strip (cur @ [32] @ s) = (if cur = [] then s else strip cur @ [32] @ s)"
proof -
  have both: "tight (cur @ [32] @ s)
      \<and> strip (cur @ [32] @ s) = (if cur = [] then s else strip cur @ [32] @ s)"
  proof (cases "cur = []")
    case True
    with assms(2) have "tight (32 # s)" by (simp add: tight_def)
    from strip_of_tight [OF this] True assms(2) show ?thesis
      by (auto simp: solid_def space_is_space tight_def)
  next
    case False
    from strip_of_tight [OF assms(1) False] have b: "solid (strip cur)"
      and c: "cur = strip cur \<or> cur = 32 # strip cur"
      by simp_all
    from b assms(2) have s2: "solid (strip cur @ [32] @ s)"
      by (cases "strip cur") (auto simp: solid_def)
    from c show ?thesis
    proof
      assume e: "cur = strip cur"
      with s2 have "solid (cur @ [32] @ s)" by simp
      with e False show ?thesis
        by (simp add: tight_def strip_of_solid)
    next
      assume e: "cur = 32 # strip cur"
      then have e2: "cur @ [32] @ s = 32 # (strip cur @ [32] @ s)" by simp
      from s2 have t: "tight (32 # (strip cur @ [32] @ s))"
        by (simp add: tight_def)
      from strip_of_tight [OF t] s2 have st: "strip (32 # (strip cur @ [32] @ s)) = strip cur @ [32] @ s"
        by (auto simp: solid_def space_is_space)
      show ?thesis
        unfolding e2 using t st False by simp
    qed
  qed
  from both show "tight (cur @ [32] @ s)"
    and "strip (cur @ [32] @ s) = (if cur = [] then s else strip cur @ [32] @ s)"
    by simp_all
qed

lemma join_merge: "join [32] (xs @ [x @ 32 # s]) = join [32] (xs @ [x, s])"
proof -
  have "join [32] (xs @ [x @ 32 # s]) = join [32] (xs @ [x]) @ [32] @ s"
    by (cases "xs = []") (simp_all add: join_snoc)
  also have "\<dots> = join [32] ((xs @ [x]) @ [s])"
    by (simp add: join_snoc del: append_assoc)
  finally show ?thesis by simp
qed

lemma join_rest:
  "ss \<noteq> [] \<Longrightarrow> join [32] (xs @ s # ss) = join [32] (xs @ [s]) @ 32 # join [32] ss"
  using join_append [of "xs @ [s]" ss "[32]"] by simp

lemma flush_ok: "state_ok n S st \<Longrightarrow> \<forall>c\<in>set (flush st). chunk_ok n S c"
  by (auto simp: state_ok_def flush_def)

lemma accumulate_ok:
  assumes ok: "state_ok n S st" and s: "solid s" and m: "s \<in> S"
  shows "state_ok n S (accumulate n st s)
         \<and> snd (accumulate n st s) \<noteq> []
         \<and> join [32] (flush (accumulate n st s)) = join [32] (flush st @ [s])"
proof -
  obtain chunks cur where st: "st = (chunks, cur)" by (cases st)
  from ok st have t: "tight cur" and ch: "\<forall>c\<in>set chunks. chunk_ok n S c"
    and cu: "cur = [] \<or> chunk_ok n S (strip cur)"
    by (simp_all add: state_ok_def)
  from s have sne: "s \<noteq> []" by (simp add: solid_def)
  show ?thesis
  proof (cases "int (length cur) + int (length s) \<le> n")
    case True
    then have acc: "accumulate n st s = (chunks, cur @ [32] @ s)"
      by (simp add: accumulate_def st)
    note ta = tight_append [OF t s]
    show ?thesis
    proof (cases "cur = []")
      case e: True
      from ta e have "strip (cur @ [32] @ s) = s" by simp
      with acc ta(1) ch s m sne e st show ?thesis
        by (simp add: state_ok_def chunk_ok_def flush_def)
    next
      case False
      from strip_of_tight [OF t False] have b: "solid (strip cur)"
        and c: "cur = strip cur \<or> cur = 32 # strip cur"
        by simp_all
      from c have le: "length (strip cur) \<le> length cur"
        by (metis le_refl length_Cons lessI less_imp_le)
      from False have "1 \<le> length cur" by (cases cur) auto
      moreover from sne have "1 \<le> length s" by (cases s) auto
      ultimately have "int (length (strip cur @ [32] @ s)) \<le> 2 * n"
        using True le by simp
      moreover from ta False have str: "strip (cur @ [32] @ s) = strip cur @ [32] @ s"
        by simp
      ultimately have "chunk_ok n S (strip (cur @ [32] @ s))"
        by (simp add: chunk_ok_def)
      with acc ta(1) ch st False str show ?thesis
        by (simp add: state_ok_def flush_def join_merge)
    qed
  next
    case False
    then have acc: "accumulate n st s = (flush st, s)"
      by (simp add: accumulate_def st)
    from s have "tight s" by (simp add: tight_def)
    moreover from s m sne have "chunk_ok n S (strip s)"
      by (simp add: strip_of_solid chunk_ok_def)
    moreover have "flush (flush st, s) = flush st @ [s]"
      using sne s by (simp add: flush_def strip_of_solid)
    ultimately show ?thesis
      using acc flush_ok [OF ok] sne by (simp add: state_ok_def)
  qed
qed

lemma foldl_accumulate:
  "state_ok n S st \<Longrightarrow> \<forall>s\<in>set ss. solid s \<and> s \<in> S \<Longrightarrow> ss \<noteq> [] \<Longrightarrow>
     state_ok n S (foldl (accumulate n) st ss)
     \<and> join [32] (flush (foldl (accumulate n) st ss)) = join [32] (flush st @ ss)"
proof (induction ss arbitrary: st)
  case Nil
  then show ?case by simp
next
  case (Cons s ss)
  from Cons.prems have s: "solid s" and m: "s \<in> S" by simp_all
  note step = accumulate_ok [OF Cons.prems(1) s m]
  show ?case
  proof (cases "ss = []")
    case True
    with step show ?thesis by simp
  next
    case False
    from step have ne: "flush (accumulate n st s) \<noteq> []"
      by (simp add: flush_def)
    from Cons.IH [of "accumulate n st s"] step Cons.prems(2) False
    have ih: "state_ok n S (foldl (accumulate n) (accumulate n st s) ss)"
      and j: "join [32] (flush (foldl (accumulate n) (accumulate n st s) ss))
              = join [32] (flush (accumulate n st s) @ ss)"
      by simp_all
    have "join [32] (flush (accumulate n st s) @ ss)
        = join [32] (flush (accumulate n st s)) @ [32] @ join [32] ss"
      using ne False by (rule join_append)
    also have "\<dots> = join [32] (flush st @ [s]) @ [32] @ join [32] ss"
      using step by simp
    also have "\<dots> = join [32] (flush st @ s # ss)"
      using False by (simp add: join_rest)
    finally show ?thesis
      using ih j by simp
  qed
qed

lemma state_ok_short:
  "state_ok n {p} st \<Longrightarrow> int (length p) \<le> 2 * n \<Longrightarrow> state_ok n S st"
  by (auto simp: state_ok_def chunk_ok_def)

section \<open>The passages of the chunker\<close>

text \<open>
  Claim C3 (as amended). For every text that holds a character other than whitespace
  and for every chunk size: the passages of \<open>chunk_text\<close>, joined by single spaces,
  are the normalized text exactly; no passage is empty; and every passage has at most
  twice the chunk size in characters unless it is one whole sentence of the sentence
  split of the normalized text.
\<close>

theorem chunk_text_sound:
  assumes "\<exists>c\<in>set text. \<not> is_space c"
  shows "join [32] (chunk_text n text) = normalize_ws text
         \<and> [] \<notin> set (chunk_text n text)
         \<and> (\<forall>c\<in>set (chunk_text n text).
               int (length c) \<le> 2 * n \<or> c \<in> set (re_split_sentences [] (normalize_ws text)))"
proof -
  let ?p = "normalize_ws text"
  let ?S = "set (re_split_sentences [] ?p)"
  from assms have ne: "text \<noteq> []" by auto
  from assms have pne: "?p \<noteq> []" by (auto dest: normalize_nonempty)
  with normalize_shape [of "text"] have l: "loose ?p" and so: "solid ?p" by simp_all
  have one: "split_paragraphs [] ?p = [?p]"
    using split_paragraphs_no_newline [OF normalize_no_newline, of "[]" "text"] by simp
  have init: "state_ok n S0 ([], [])" for S0
    by (simp add: state_ok_def tight_def)
  have f0: "flush ([], []) = []"
    by (simp add: flush_def)
  have ct: "chunk_text n text = flush (paragraph_step n ([], []) ?p)"
    using ne one by (simp add: chunk_text_def)
  have "state_ok n ?S (paragraph_step n ([], []) ?p)
      \<and> join [32] (flush (paragraph_step n ([], []) ?p)) = ?p"
  proof (cases "int (length ?p) > n * 2")
    case True
    have sol: "\<forall>s\<in>?S. solid s \<and> s \<in> ?S"
      using re_split_sentences_solid [OF l, of "[]"] so by simp
    have j: "join [32] (re_split_sentences [] ?p) = ?p"
      using re_split_sentences_join [OF l, of "[]"] so by (simp add: solid_def)
    from foldl_accumulate [OF init sol re_split_sentences_nonempty] j True
    show ?thesis
      by (simp add: paragraph_step_def f0)
  next
    case False
    from accumulate_ok [where n = n and S = "{?p}" and st = "([], [])" and s = ?p, OF init so]
    have a: "state_ok n {?p} (accumulate n ([], []) ?p)"
      and b: "join [32] (flush (accumulate n ([], []) ?p)) = ?p"
      by (simp_all add: f0)
    from False have "int (length ?p) \<le> 2 * n" by simp
    with a have "state_ok n ?S (accumulate n ([], []) ?p)"
      by (rule state_ok_short)
    with b False show ?thesis
      by (simp only: paragraph_step_def if_False simp_thms)
  qed
  then have ok: "state_ok n ?S (paragraph_step n ([], []) ?p)"
    and j: "join [32] (chunk_text n text) = ?p"
    by (simp_all only: ct)
  from flush_ok [OF ok] have "\<forall>c\<in>set (chunk_text n text). chunk_ok n ?S c"
    by (simp only: ct)
  then have "[] \<notin> set (chunk_text n text)"
    and "\<forall>c\<in>set (chunk_text n text). int (length c) \<le> 2 * n \<or> c \<in> ?S"
    unfolding chunk_ok_def by blast+
  with j show ?thesis by blast
qed

theorem chunk_text_sound_example:
  "(\<exists>c\<in>set (ascii ''Ab.  Cd! E''). \<not> is_space c)
   \<and> chunk_text 2 (ascii ''Ab.  Cd! E'') = [ascii ''Ab.'', ascii ''Cd!'', ascii ''E'']
   \<and> normalize_ws (ascii ''Ab.  Cd! E'') = ascii ''Ab. Cd! E''
   \<and> join [32] [ascii ''Ab.'', ascii ''Cd!'', ascii ''E''] = ascii ''Ab. Cd! E''"
proof -
  have h: "\<exists>c\<in>set (ascii ''Ab.  Cd! E''). \<not> is_space c"
    by (simp add: ascii_def is_space_def)
  have c: "chunk_text 2 (ascii ''Ab.  Cd! E'') = [ascii ''Ab.'', ascii ''Cd!'', ascii ''E'']"
    by (simp add: chunk_text_def normalize_ws_def paragraph_step_def accumulate_def flush_def
        strip_def ascii_def is_space_def is_sentence_end_def)
  from chunk_text_sound [OF h, of 2] h c show ?thesis
    by (simp add: ascii_def)
qed

text \<open>
  The claim as stated fails in two ways. The passages put one after the other lose the
  spaces at which the text was cut, and collapsing whitespace does not bring them back:
  \<^verbatim>\<open>Ab.  Cd! E\<close> with chunk size 2 gives \<^verbatim>\<open>Ab.\<close>, \<^verbatim>\<open>Cd!\<close>, \<^verbatim>\<open>E\<close>, whose
  concatenation \<^verbatim>\<open>Ab.Cd!E\<close> is not the normalized text \<^verbatim>\<open>Ab. Cd! E\<close>. And on a text
  of whitespace alone, here a newline and a tabulator, the one passage is empty.
\<close>

theorem chunk_text_concatenation_differs:
  "chunk_text 2 (ascii ''Ab.  Cd! E'') = [ascii ''Ab.'', ascii ''Cd!'', ascii ''E'']
   \<and> normalize_ws (concat [ascii ''Ab.'', ascii ''Cd!'', ascii ''E'']) = ascii ''Ab.Cd!E''
   \<and> normalize_ws (ascii ''Ab.  Cd! E'') = ascii ''Ab. Cd! E''
   \<and> ascii ''Ab.Cd!E'' \<noteq> ascii ''Ab. Cd! E''
   \<and> chunk_text 500 [10, 9] = [[]]"
  by (simp add: chunk_text_def normalize_ws_def paragraph_step_def accumulate_def flush_def
      strip_def ascii_def is_space_def is_sentence_end_def)

section \<open>Facts about ingestion\<close>

lemma id_range_Suc: "id_range c (Suc n) = doc_id_of c # id_range (Suc c) n"
  by (simp add: id_range_def upt_conv_Cons del: upt_Suc)

lemma id_range_0: "id_range c 0 = []"
  by (simp add: id_range_def)

lemma id_range_add: "id_range c (a + b) = id_range c a @ id_range (c + a) b"
  by (induction a arbitrary: c) (simp_all add: id_range_Suc id_range_0)

lemma length_id_range: "length (id_range c n) = n"
  by (simp add: id_range_def)

lemma foldl_add_chunk:
  "foldl (add_chunk p) st (enumerate j cs) =
     st\<lparr>documents := documents st @ cs,
        metadatas := metadatas st @ map (\<lambda>(j, c). chunk_metadata p j) (enumerate j cs),
        ids := ids st @ id_range (doc_id_counter st) (length cs),
        doc_id_counter := doc_id_counter st + length cs\<rparr>"
proof (induction cs arbitrary: st j)
  case Nil
  show ?case by (simp add: id_range_0)
next
  case (Cons c cs)
  show ?case
    apply (simp only: enumerate_simps foldl_Cons)
    apply (subst Cons.IH)
    apply (simp add: add_chunk_def id_range_Suc chunk_metadata_def)
    done
qed

lemma add_page_units:
  "add_page st p =
     st\<lparr>documents := documents st @ map fst (page_documents p),
        metadatas := metadatas st @ map snd (page_documents p),
        ids := ids st @ id_range (doc_id_counter st) (length (page_documents p)),
        doc_id_counter := doc_id_counter st + length (page_documents p)\<rparr>"
proof (cases "length (get_or (page_content p) []) > 5000")
  case True
  have pd: "page_documents p
      = map (\<lambda>(j, c). (c, chunk_metadata p j)) (enumerate 0 (get_or (page_chunks p) []))"
    using True by (simp add: page_documents_def)
  have f: "map (fst \<circ> (\<lambda>(j, c). (c, f j))) (enumerate n cs) = cs"
    for f :: "nat \<Rightarrow> doc_metadata" and cs :: "pystr list" and n
    by (induction cs arbitrary: n) auto
  have g: "map (snd \<circ> (\<lambda>(j, c). (c, f j))) xs = map (\<lambda>(j, c). f j) xs"
    for f :: "nat \<Rightarrow> doc_metadata" and xs :: "(nat \<times> pystr) list"
    by (induction xs) auto
  show ?thesis using True
    by (simp add: add_page_def foldl_add_chunk pd f g)
next
  case False
  then show ?thesis
    by (simp add: add_page_def page_documents_def add_whole_def whole_metadata_def
        id_range_Suc id_range_0)
qed

lemma foldl_add_page:
  "foldl add_page st ps =
     st\<lparr>documents := documents st @ map fst (concat (map page_documents ps)),
        metadatas := metadatas st @ map snd (concat (map page_documents ps)),
        ids := ids st @ id_range (doc_id_counter st) (length (concat (map page_documents ps))),
        doc_id_counter := doc_id_counter st + length (concat (map page_documents ps))\<rparr>"
proof (induction ps arbitrary: st)
  case Nil
  show ?case by (simp add: id_range_0)
next
  case (Cons p ps)
  show ?case
    apply (simp only: foldl_Cons)
    apply (subst Cons.IH)
    apply (simp add: add_page_units [of st p] id_range_add)
    done
qed

lemma collect_documents_units:
  "collect_documents ps =
     \<lparr>documents = map fst (concat (map page_documents ps)),
      metadatas = map snd (concat (map page_documents ps)),
      ids = id_range 0 (length (concat (map page_documents ps))),
      doc_id_counter = length (concat (map page_documents ps))\<rparr>"
  by (simp add: collect_documents_def foldl_add_page)

lemma concat_slices:
  "concat (map (\<lambda>k. py_slice (k * b) (k * b + b) xs) [0..<m]) = take (m * b) xs"
proof (induction m)
  case 0
  show ?case by simp
next
  case (Suc m)
  have "take (m * b) xs @ take b (drop (m * b) xs) = take (m * b + b) xs"
    by (simp add: take_add)
  with Suc show ?case
    by (simp add: py_slice_def add.commute)
qed

lemma batch_starts_cover:
  "concat (map (\<lambda>i. py_slice i (i + batch_size) xs) (batch_starts (length xs))) = xs"
proof -
  have "length xs \<le> ((length xs + batch_size - 1) div batch_size) * batch_size"
    by (simp add: batch_size_def)
  then show ?thesis
    by (simp add: batch_starts_def comp_def concat_slices)
qed

lemma add_batches_ok:
  "\<forall>b. coll_add b = None \<Longrightarrow>
     add_batches coll_add bs coll = (coll @ concat (map batch_items bs), None)"
  by (induction bs arbitrary: coll) simp_all

lemma batch_items_slice:
  "batch_items (batch_at st i) =
     py_slice i (i + batch_size)
       (map (\<lambda>(i, d, m). \<lparr>st_id = i, st_document = d, st_metadata = m\<rparr>)
          (zip (ids st) (zip (documents st) (metadatas st))))"
  by (simp add: batch_items_def batch_at_def py_slice_def take_map drop_map take_zip drop_zip)

lemma zip_units:
  "map (\<lambda>(i, d, m). \<lparr>st_id = i, st_document = d, st_metadata = m\<rparr>)
     (zip (id_range c (length us)) (zip (map fst us) (map snd us))) = numbered c us"
proof (induction us arbitrary: c)
  case Nil
  show ?case by (simp add: numbered_def id_range_0)
next
  case (Cons u us)
  from Cons [of "Suc c"] show ?case
    by (simp add: numbered_def id_range_Suc case_prod_unfold)
qed

lemma str_of_nat_nonempty: "str_of_nat n \<noteq> []"
  by (subst str_of_nat.simps) simp

lemma digit_char_inj: "a < 10 \<Longrightarrow> b < 10 \<Longrightarrow> digit_char a = digit_char b \<Longrightarrow> a = b"
  by (simp add: digit_char_def nth_eq_iff_index_eq)

lemma str_of_nat_inj: "str_of_nat m = str_of_nat n \<Longrightarrow> m = n"
proof (induction m arbitrary: n rule: str_of_nat.induct)
  case (1 m)
  have small: "str_of_nat k = [digit_char k]" if "k < 10" for k
    using that by (subst str_of_nat.simps) simp
  have big: "str_of_nat k = str_of_nat (k div 10) @ [digit_char (k mod 10)]" if "\<not> k < 10" for k
    using that by (subst str_of_nat.simps) simp
  show ?case
  proof (cases "m < 10")
    case m: True
    show ?thesis
    proof (cases "n < 10")
      case True
      from "1.prems" have "digit_char m = digit_char n"
        by (simp only: small [OF m] small [OF True]) simp
      with m True show ?thesis
        by (rule digit_char_inj)
    next
      case False
      with m "1.prems" str_of_nat_nonempty [of "n div 10"] show ?thesis
        by (simp only: small [OF m] big [OF False]) simp
    qed
  next
    case m: False
    show ?thesis
    proof (cases "n < 10")
      case True
      with m "1.prems" str_of_nat_nonempty [of "m div 10"] show ?thesis
        by (simp only: small [OF True] big [OF m]) simp
    next
      case False
      from "1.prems" have e: "str_of_nat (m div 10) = str_of_nat (n div 10)"
        and d: "digit_char (m mod 10) = digit_char (n mod 10)"
        by (simp_all only: big [OF m] big [OF False] append1_eq_conv)
      from "1.IH" [OF m e] have "m div 10 = n div 10" .
      moreover have "m mod 10 = n mod 10"
        by (rule digit_char_inj [OF _ _ d]) simp_all
      ultimately show ?thesis
        by (metis div_mult_mod_eq)
    qed
  qed
qed

lemma doc_id_of_inj: "doc_id_of m = doc_id_of n \<Longrightarrow> m = n"
proof -
  assume "doc_id_of m = doc_id_of n"
  then have "str_of_nat m = str_of_nat n"
    by (simp only: doc_id_of_def same_append_eq)
  then show ?thesis
    by (rule str_of_nat_inj)
qed

lemma numbered_ids: "map st_id (numbered c us) = id_range c (length us)"
proof (induction us arbitrary: c)
  case Nil
  show ?case by (simp add: numbered_def id_range_0)
next
  case (Cons u us)
  from Cons [of "Suc c"] show ?case
    by (simp add: numbered_def id_range_Suc case_prod_unfold)
qed

lemma distinct_id_range: "distinct (id_range c n)"
  unfolding id_range_def
  by (rule iffD2 [OF distinct_map]) (auto simp: inj_on_def dest: doc_id_of_inj)

section \<open>Claims about ingestion\<close>

text \<open>
  Claim C4. When no insertion into the collection raises, \<open>load_from_dict\<close> adds to the
  collection exactly the documents of the pages, page after page and chunk after chunk:
  for a page whose content is longer than 5000 characters each precomputed passage as a
  document of its own, tagged \<open>is_chunk = True\<close> with the chunk index 0, 1, ... of the
  passage in the page, and for any other page one document holding the whole content,
  tagged \<open>is_chunk = False\<close>. The identifiers are \<open>doc_0\<close>, \<open>doc_1\<close>, ... in that same
  order, whatever the batches of twenty in which the documents are handed over, and no
  two documents of the call have the same identifier.
\<close>

theorem load_from_dict_documents:
  assumes "\<forall>b. coll_add b = None"
  shows "load_from_dict coll_add (Some pages) coll
           = (coll @ numbered 0 (concat (map page_documents pages)), None)
         \<and> map st_id (numbered 0 (concat (map page_documents pages)))
             = map doc_id_of [0 ..< length (concat (map page_documents pages))]
         \<and> distinct (map st_id (numbered 0 (concat (map page_documents pages))))"
proof -
  let ?us = "concat (map page_documents pages)"
  let ?st = "collect_documents pages"
  let ?all = "map (\<lambda>(i, d, m). \<lparr>st_id = i, st_document = d, st_metadata = m\<rparr>)
                (zip (ids ?st) (zip (documents ?st) (metadatas ?st)))"
  have len: "length (documents ?st) = length ?all"
    by (simp add: collect_documents_units length_id_range)
  have "concat (map batch_items (map (batch_at ?st) (batch_starts (length (documents ?st)))))
      = concat (map (\<lambda>i. py_slice i (i + batch_size) ?all) (batch_starts (length ?all)))"
    by (simp only: len map_map comp_def batch_items_slice)
  also have "\<dots> = ?all"
    by (rule batch_starts_cover)
  also have "\<dots> = numbered 0 ?us"
    by (simp add: collect_documents_units zip_units)
  finally have "load_from_dict coll_add (Some pages) coll = (coll @ numbered 0 ?us, None)"
    by (simp add: load_from_dict_def get_or_def add_batches_ok [OF assms])
  moreover have "map st_id (numbered 0 ?us) = map doc_id_of [0 ..< length ?us]"
    by (simp add: numbered_ids id_range_def)
  moreover have "distinct (map st_id (numbered 0 ?us))"
    by (simp only: numbered_ids distinct_id_range)
  ultimately show ?thesis
    by blast
qed

theorem load_from_dict_two_pages:
  "(\<forall>b. (\<lambda>b. None :: py_exception option) b = None)
   \<and> load_from_dict (\<lambda>b. None)
       (Some [\<lparr>page_url = Some ''u1'', page_title = Some ''t1'',
                page_content = Some (replicate 6000 120), page_chunks = Some [[97], [98]]\<rparr>,
              \<lparr>page_url = Some ''u2'', page_title = None,
                page_content = Some [104, 105], page_chunks = Some [[104], [105]]\<rparr>]) []
     = ([\<lparr>st_id = ''doc_0'', st_document = [97],
          st_metadata = \<lparr>md_url = ''u1'', md_title = ''t1'', md_chunk_id = Some 0,
                          md_is_chunk = True\<rparr>\<rparr>,
         \<lparr>st_id = ''doc_1'', st_document = [98],
          st_metadata = \<lparr>md_url = ''u1'', md_title = ''t1'', md_chunk_id = Some 1,
                          md_is_chunk = True\<rparr>\<rparr>,
         \<lparr>st_id = ''doc_2'', st_document = [104, 105],
          st_metadata = \<lparr>md_url = ''u2'', md_title = [], md_chunk_id = None,
                          md_is_chunk = False\<rparr>\<rparr>], None)"
  using load_from_dict_documents [of "\<lambda>b. None"
      "[\<lparr>page_url = Some ''u1'', page_title = Some ''t1'',
         page_content = Some (replicate 6000 120), page_chunks = Some [[97], [98]]\<rparr>,
        \<lparr>page_url = Some ''u2'', page_title = None,
         page_content = Some [104, 105], page_chunks = Some [[104], [105]]\<rparr>]" "[]"]
  by (simp add: numbered_def page_documents_def get_or_def chunk_metadata_def
      whole_metadata_def doc_id_of_def digit_char_def str_of_nat.simps)

section \<open>Facts about queries\<close>



lemma rag_try_generation_failure:
  "coll_query env query n_results = Inr res \<Longrightarrow>
   py_index (res_documents res) 0 = Inr docs \<Longrightarrow>
   make_sources res (enumerate 0 docs) = Inr srcs \<Longrightarrow>
   chat_complete env system_prompt (user_prompt (context_of srcs) query) = Inl e \<Longrightarrow>
   rag_try env query n_results = Inl e"
  by (simp add: rag_try_def bind_exn_def)

lemma make_sources_content:
  "make_sources res idocs = Inr srcs \<Longrightarrow> map src_content srcs = map snd idocs"
proof (induction res idocs arbitrary: srcs rule: make_sources.induct)
  case (1 res)
  then show ?case by simp
next
  case (2 res i doc rest)
  from "2.prems" show ?case
    by (auto simp: bind_exn_def split: sum.splits dest: "2.IH")
qed

lemma make_sources_similarity:
  "make_sources res idocs = Inr srcs \<Longrightarrow> res_distances res = Some ds \<Longrightarrow>
   py_index ds 0 = Inr d \<Longrightarrow>
   (\<forall>x\<in>set idocs. fst x < length d) \<and> map src_similarity srcs = map (\<lambda>x. d ! fst x) idocs"
proof (induction res idocs arbitrary: srcs rule: make_sources.induct)
  case (1 res)
  then show ?case by simp
next
  case (2 res i doc rest)
  from "2.prems" show ?case
    by (auto simp: bind_exn_def source_similarity_def py_index_def
        split: sum.splits if_splits dest: "2.IH")
qed

lemma nth_enumerate_take:
  "\<forall>x\<in>set (enumerate 0 xs). fst x < length d \<Longrightarrow>
     map (\<lambda>x. d ! fst x) (enumerate 0 xs) = take (length xs) d"
proof -
  assume a: "\<forall>x\<in>set (enumerate 0 xs). fst x < length d"
  have le: "length xs \<le> length d"
  proof (cases xs rule: rev_cases)
    case Nil
    then show ?thesis by simp
  next
    case (snoc ys y)
    then have "(length ys, y) \<in> set (enumerate 0 xs)"
      by (simp add: in_set_enumerate_eq nth_append)
    with a have "length ys < length d" by fastforce
    with snoc show ?thesis by simp
  qed
  show ?thesis
    by (rule nth_equalityI) (use le in \<open>simp_all add: nth_enumerate_eq\<close>)
qed

section \<open>Claims about queries\<close>



text \<open>
  Claim C5 (what the code does). When a query succeeds, the sources of \<open>rag_query\<close> are
  the documents of the index's answer, one source per document and in the index's order,
  each with the distance the index gave it: so there are at most \<open>n_results\<close> sources
  whenever the index returns at most that many documents, and they are in ascending
  order of distance whenever the index's distances are. \<open>rag_query\<close> takes the
  threshold of the slider and never reads it, and the search button, which is the
  caller, shows the first three of the returned sources without comparing any score
  with the threshold: a source whose score is below the threshold is shown.
\<close>

theorem rag_query_ignores_threshold:
  assumes "rag_try env query n_results = Inr r"
    and "coll_query env query n_results = Inr res"
    and "res_documents res = [docs]"
    and "res_distances res = Some [dists]"
  shows "map src_content (qr_sources r) = docs
         \<and> map src_similarity (qr_sources r) = take (length docs) dists
         \<and> (int (length docs) \<le> n_results \<longrightarrow> int (length (qr_sources r)) \<le> n_results)
         \<and> (sorted dists \<longrightarrow> sorted (map src_similarity (qr_sources r)))
         \<and> rag_query env query n_results threshold = r
         \<and> (strip query \<noteq> [] \<longrightarrow>
              search_button env query n_results threshold
                = Some \<lparr>shown_answer = qr_answer r, shown_sources = take 3 (qr_sources r)\<rparr>)"
proof -
  from assms obtain srcs a where
    ms: "make_sources res (enumerate 0 docs) = Inr srcs" and r: "r = \<lparr>qr_answer = a, qr_sources = srcs\<rparr>"
    by (auto simp: rag_try_def bind_exn_def py_index_def split: sum.splits)
  have content: "map src_content srcs = docs"
    using make_sources_content [OF ms] by (simp add: enumerate_eq_zip)
  have idx: "py_index [dists] 0 = Inr dists"
    by (simp add: py_index_def)
  from make_sources_similarity [OF ms assms(4) idx]
  have sim: "map src_similarity srcs = take (length docs) dists"
    using nth_enumerate_take [of docs dists] by simp
  have len: "length srcs = length docs"
    using content by (metis length_map)
  have q: "rag_query env query n_results threshold = r"
    using assms(1) by (simp add: rag_query_def)
  show ?thesis
    using content sim len q r
    by (simp add: search_button_def py_slice_def)
qed

text \<open>
  With the index of two documents and the threshold 0.4 of the slider, the search button
  shows both sources; the first has the score 0.1, below the threshold.
\<close>

theorem search_below_threshold_shown:
  "rag_try two_env (ascii ''why'') 3 = Inr \<lparr>qr_answer = ascii ''ok'', qr_sources = two_sources\<rparr>
   \<and> coll_query two_env (ascii ''why'') 3 = Inr two_results
   \<and> strip (ascii ''why'') \<noteq> []
   \<and> map src_content two_sources = [ascii ''first'', ascii ''second'']
   \<and> map src_similarity two_sources = [1 / 10, 9 / 10]
   \<and> length two_sources \<le> 3
   \<and> sorted (map src_similarity two_sources)
   \<and> rag_query two_env (ascii ''why'') 3 (4 / 10)
       = \<lparr>qr_answer = ascii ''ok'', qr_sources = two_sources\<rparr>
   \<and> search_button two_env (ascii ''why'') 3 (4 / 10)
       = Some \<lparr>shown_answer = ascii ''ok'', shown_sources = two_sources\<rparr>
   \<and> src_similarity (hd two_sources) < 4 / 10"
proof -
  have t: "rag_try two_env (ascii ''why'') 3
      = Inr \<lparr>qr_answer = ascii ''ok'', qr_sources = two_sources\<rparr>"
    by (simp add: rag_try_def two_env_def two_results_def two_sources_def bind_exn_def
        py_index_def source_similarity_def get_or_def)
  have q: "coll_query two_env (ascii ''why'') 3 = Inr two_results"
    by (simp add: two_env_def)
  have s: "strip (ascii ''why'') \<noteq> []"
    by (simp add: strip_def ascii_def is_space_def)
  have l: "length two_sources = 2"
    by (simp add: two_sources_def)
  have b: "src_similarity (hd two_sources) < 4 / 10"
    by (simp add: two_sources_def)
  from rag_query_ignores_threshold
         [OF t q, of "[ascii ''first'', ascii ''second'']" "[1 / 10, 9 / 10]" "4 / 10"]
  show ?thesis
    using t q s l b by (simp add: two_results_def)
qed
section \<open>Facts about discovery\<close>

text \<open>
  The two properties of \<^verbatim>\<open>self.pages\<close> that every step of discovery keeps: each page
  starts with the base URL, and no page occurs twice.
\<close>

lemma add_urls_keeps:
  "\<forall>u\<in>set pages. prefix b u \<Longrightarrow> distinct pages \<Longrightarrow>
     (\<forall>u\<in>set (fst (add_urls b m urls pages)). prefix b u)
     \<and> distinct (fst (add_urls b m urls pages))"
proof (induction urls arbitrary: pages)
  case Nil
  then show ?case by simp
next
  case (Cons url urls)
  show ?case
  proof (cases "py_getitem url ''loc''")
    case None
    with Cons.prems show ?thesis by simp
  next
    case (Some l)
    show ?thesis
    proof (cases l)
      case (XStr loc)
      show ?thesis
      proof (cases "prefix b loc \<and> loc \<notin> set pages")
        case True
        with Cons.prems have "\<forall>u\<in>set (pages @ [loc]). prefix b u" "distinct (pages @ [loc])"
          by auto
        from Cons.IH [OF this] Some XStr True this show ?thesis
          by simp
      next
        case False
        with Cons.IH [OF Cons.prems] Some XStr show ?thesis
          by auto
      qed
    qed (use Some Cons.prems in simp_all)
  qed
qed

lemma add_urls_cap:
  "int (length pages) < m \<Longrightarrow> int (length (fst (add_urls b m urls pages))) \<le> m"
proof (induction urls arbitrary: pages)
  case Nil
  then show ?case by simp
next
  case (Cons url urls)
  show ?case
  proof (cases "py_getitem url ''loc''")
    case None
    with Cons.prems show ?thesis by simp
  next
    case (Some l)
    show ?thesis
    proof (cases l)
      case (XStr loc)
      show ?thesis
      proof (cases "prefix b loc \<and> loc \<notin> set pages")
        case True
        show ?thesis
        proof (cases "int (length (pages @ [loc])) \<ge> m")
          case ge: True
          with Cons.prems Some XStr True show ?thesis by simp
        next
          case False
          then have "int (length (pages @ [loc])) < m" by simp
          from Cons.IH [OF this] Some XStr True False show ?thesis by simp
        qed
      next
        case False
        with Cons.IH [OF Cons.prems] Some XStr show ?thesis
          by auto
      qed
    qed (use Some Cons.prems in simp_all)
  qed
qed

lemma read_urlset_keeps:
  assumes "\<forall>u\<in>set pages. prefix b u" and "distinct pages"
  shows "(\<forall>u\<in>set (fst (read_urlset b m s pages)). prefix b u)
         \<and> distinct (fst (read_urlset b m s pages))"
  using assms add_urls_keeps [OF assms]
  by (simp add: read_urlset_def Let_def split: option.splits bool.splits)

lemma read_urlset_cap:
  "int (length pages) < m \<Longrightarrow> int (length (fst (read_urlset b m s pages))) \<le> m"
  using add_urls_cap [of pages m b]
  by (simp add: read_urlset_def Let_def split: option.splits bool.splits)

lemma child_sitemap_keeps:
  assumes "\<forall>u\<in>set pages. prefix b u" and "distinct pages"
  shows "(\<forall>u\<in>set (child_sitemap w b m loc pages). prefix b u)
         \<and> distinct (child_sitemap w b m loc pages)"
  using assms read_urlset_keeps [OF assms]
  by (simp add: child_sitemap_def split: xml.splits option.splits)

lemma index_loop_keeps:
  "\<forall>u\<in>set pages. prefix b u \<Longrightarrow> distinct pages \<Longrightarrow>
   index_loop w b m entries pages = Some pages' \<Longrightarrow>
     (\<forall>u\<in>set pages'. prefix b u) \<and> distinct pages'"
proof (induction entries arbitrary: pages)
  case Nil
  then show ?case by simp
next
  case (Cons e entries)
  from Cons.prems(3) obtain loc where
    loc: "py_getitem e ''loc'' = Some loc"
    and rest: "index_loop w b m entries (child_sitemap w b m loc pages) = Some pages'"
    by (auto split: option.splits)
  from child_sitemap_keeps [OF Cons.prems(1,2), of w m loc]
  show ?case
    using Cons.IH [OF _ _ rest] by blast
qed

lemma add_links_inv:
  "crawl_inv b (v, t, p) \<Longrightarrow> crawl_inv b (add_links b m links (v, t, p))"
proof (induction links arbitrary: v t p)
  case Nil
  then show ?case by simp
next
  case (Cons l links)
  show ?case
  proof (cases "l \<notin> set v \<and> prefix b l")
    case True
    with Cons.prems have "crawl_inv b (l # v, t @ [l], p @ [l])"
      by (auto simp: crawl_inv_def)
    from Cons.IH [OF this] this True show ?thesis
      by simp
  next
    case False
    with Cons.IH [OF Cons.prems] show ?thesis
      by auto
  qed
qed

lemma add_links_cap:
  "int (length p) < m \<Longrightarrow>
     int (length (snd (snd (add_links b m links (v, t, p))))) \<le> m"
proof (induction links arbitrary: v t p)
  case Nil
  then show ?case by simp
next
  case (Cons l links)
  show ?case
  proof (cases "l \<notin> set v \<and> prefix b l")
    case True
    show ?thesis
    proof (cases "int (length (p @ [l])) \<ge> m")
      case ge: True
      with Cons.prems True show ?thesis by simp
    next
      case False
      then have "int (length (p @ [l])) < m" by simp
      from Cons.IH [OF this] True False show ?thesis by simp
    qed
  next
    case False
    with Cons.IH [OF Cons.prems] show ?thesis
      by auto
  qed
qed

lemma crawl_loop_keeps:
  "crawl_inv b (v, t, p) \<Longrightarrow>
     (\<forall>u\<in>set (crawl_loop links_of b m (v, t, p)). prefix b u)
     \<and> distinct (crawl_loop links_of b m (v, t, p))
     \<and> (int (length p) \<le> m \<longrightarrow> int (length (crawl_loop links_of b m (v, t, p))) \<le> m)"
proof (induction links_of b m "(v, t, p)" arbitrary: v t p rule: crawl_loop.induct)
  case (1 links_of b m v t p)
  show ?case
  proof (cases t)
    case Nil
    with "1.prems" show ?thesis by (simp add: crawl_inv_def)
  next
    case (Cons cur rest)
    show ?thesis
    proof (cases "int (length v) < m")
      case False
      with Cons "1.prems" show ?thesis by (simp add: crawl_inv_def)
    next
      case True
      from "1.prems" have inv': "crawl_inv b (v, rest, p)"
        by (simp add: crawl_inv_def)
      from "1.prems" True have lt: "int (length p) < m"
        by (simp add: crawl_inv_def)
      show ?thesis
      proof (cases "links_of cur")
        case None
        from "1.hyps"(1) [OF Cons True None inv'] Cons True None show ?thesis
          by simp
      next
        case (Some links)
        obtain v' t' p' where st: "add_links b m links (v, rest, p) = (v', t', p')"
          by (cases "add_links b m links (v, rest, p)") auto
        from add_links_inv [OF inv', of m links] st have i2: "crawl_inv b (v', t', p')"
          by simp
        from add_links_cap [OF lt, of b links v rest] st have c2: "int (length p') \<le> m"
          by simp
        from "1.hyps"(2) [OF Cons True Some st i2] c2 Cons True Some st
        show ?thesis
          by simp
      qed
    qed
  qed
qed

lemma discover_keeps:
  "(\<forall>u\<in>set (snd (discover_pages_via_crawling w b b m)). prefix b u)
   \<and> distinct (snd (discover_pages_via_crawling w b b m))
   \<and> (1 \<le> m \<longrightarrow> int (length (snd (discover_pages_via_crawling w b b m))) \<le> m)"
proof (cases "browser_launch w")
  case (Some e)
  then show ?thesis by (simp add: discover_pages_via_crawling_def)
next
  case None
  have "crawl_inv b ([b], [b], [b])"
    by (simp add: crawl_inv_def)
  from crawl_loop_keeps [OF this, of "page_links w" m] None show ?thesis
    by (simp add: discover_pages_via_crawling_def Let_def)
qed

lemma crawl_inside_try_keeps:
  "(\<forall>u\<in>set (snd (crawl_inside_try w b m)). prefix b u)
   \<and> distinct (snd (crawl_inside_try w b m))
   \<and> (1 \<le> m \<longrightarrow> int (length (snd (crawl_inside_try w b m))) \<le> m)"
  using discover_keeps [of w b m]
  by (cases "discover_pages_via_crawling w b b m")
     (auto simp: crawl_inside_try_def split: ret.splits)

lemma parsed_sitemap_keeps:
  assumes "\<forall>u\<in>set pages. prefix b u" and "distinct pages"
  shows "(\<forall>u\<in>set (snd (parsed_sitemap w b m sm pages)). prefix b u)
         \<and> distinct (snd (parsed_sitemap w b m sm pages))"
proof -
  have c: "(\<forall>u\<in>set (snd (crawl_inside_try w b m)). prefix b u)
      \<and> distinct (snd (crawl_inside_try w b m))"
    using crawl_inside_try_keeps [of w b m] by simp
  have i: "index_loop w b m entries pages = Some pages' \<Longrightarrow>
      (\<forall>u\<in>set pages'. prefix b u) \<and> distinct pages'" for entries pages'
    using index_loop_keeps [OF assms] .
  have u: "(\<forall>u\<in>set (fst (read_urlset b m sm pages)). prefix b u)
      \<and> distinct (fst (read_urlset b m sm pages))"
    using read_urlset_keeps [OF assms] .
  show ?thesis
  proof (cases "py_contains ''sitemapindex'' sm")
    case None
    with c show ?thesis by (simp add: parsed_sitemap_def)
  next
    case (Some isindex)
    show ?thesis
    proof (cases isindex)
      case True
      with Some c i show ?thesis
        by (auto simp: parsed_sitemap_def split: option.splits)
    next
      case False
      obtain pages' how where r: "read_urlset b m sm pages = (pages', how)"
        by (cases "read_urlset b m sm pages") auto
      with Some False c u show ?thesis
        by (cases how) (simp_all add: parsed_sitemap_def)
    qed
  qed
qed

lemma parsed_sitemap_cap:
  assumes "1 \<le> m" and "int (length pages) < m"
    and "py_contains ''sitemapindex'' sm \<noteq> Some True"
  shows "int (length (snd (parsed_sitemap w b m sm pages))) \<le> m"
proof -
  have c: "int (length (snd (crawl_inside_try w b m))) \<le> m"
    using crawl_inside_try_keeps [of w b m] assms(1) by simp
  have u: "int (length (fst (read_urlset b m sm pages))) \<le> m"
    using read_urlset_cap [OF assms(2)] .
  show ?thesis
  proof (cases "py_contains ''sitemapindex'' sm")
    case None
    with c show ?thesis by (simp add: parsed_sitemap_def)
  next
    case (Some isindex)
    with assms(3) have f: "isindex = False" by simp
    obtain pages' how where r: "read_urlset b m sm pages = (pages', how)"
      by (cases "read_urlset b m sm pages") auto
    with Some f c u show ?thesis
      by (cases how) (simp_all add: parsed_sitemap_def)
  qed
qed

lemma fetch_sitemap_cases:
  "fetch_sitemap w b m pages = discover_pages_via_crawling w b b m
   \<or> fetch_sitemap w b m pages = crawl_inside_try w b m
   \<or> (\<exists>sm. sitemap_document w b = Some sm
            \<and> fetch_sitemap w b m pages = parsed_sitemap w b m sm pages)"
  by (auto simp: fetch_sitemap_def sitemap_document_def split: option.splits)

lemma fetch_sitemap_keeps:
  assumes "\<forall>u\<in>set pages. prefix b u" and "distinct pages"
  shows "(\<forall>u\<in>set (snd (fetch_sitemap w b m pages)). prefix b u)
         \<and> distinct (snd (fetch_sitemap w b m pages))"
  using fetch_sitemap_cases [of w b m pages] discover_keeps [of w b m]
    crawl_inside_try_keeps [of w b m] parsed_sitemap_keeps [OF assms, of w m]
  by (elim disjE exE conjE) simp_all

lemma fetch_sitemap_cap:
  assumes "1 \<le> m" and "int (length pages) < m" and "\<not> is_sitemap_index w b"
  shows "int (length (snd (fetch_sitemap w b m pages))) \<le> m"
proof -
  from fetch_sitemap_cases [of w b m pages]
  consider "fetch_sitemap w b m pages = discover_pages_via_crawling w b b m"
    | "fetch_sitemap w b m pages = crawl_inside_try w b m"
    | sm where "sitemap_document w b = Some sm"
        "fetch_sitemap w b m pages = parsed_sitemap w b m sm pages"
    by blast
  then show ?thesis
  proof cases
    case 1
    with discover_keeps [of w b m] assms(1) show ?thesis by simp
  next
    case 2
    with crawl_inside_try_keeps [of w b m] assms(1) show ?thesis by simp
  next
    case 3
    with assms(3) have "py_contains ''sitemapindex'' sm \<noteq> Some True"
      by (simp add: is_sitemap_index_def)
    from parsed_sitemap_cap [OF assms(1,2) this] 3 show ?thesis by simp
  qed
qed

lemma limit_pages_subset: "set (limit_pages m pages) \<subseteq> set pages"
  by (auto simp: limit_pages_def py_prefix_def dest: in_set_takeD)

lemma site_facts:
  "fetch_sitemap (site_world urlset_ab) site 1 [] = (Returned (Some True), [''https://ex.com/a''])"
  "fetch_sitemap (site_world urlset_ab) site 10 []
     = (Returned (Some True), [''https://ex.com/a'', ''https://ex.com/b''])"
  "fetch_sitemap (site_world index_two) site 1 []
     = (Returned (Some True), [''https://ex.com/a'', ''https://ex.com/b''])"
  "fetch_sitemap (site_world index_two) site 10 []
     = (Returned (Some True), [''https://ex.com/a'', ''https://ex.com/b''])"
  "fetch_sitemap (site_world index_one) site 10 []
     = (Returned (Some True), [''https://ex.com'', ''https://ex.com/about''])"
  "fetch_sitemap (site_world html_page) site 10 [] = (Returned None, [])"
  "discover_pages_via_crawling (site_world doc) site site 10
     = (Returned (Some True), [''https://ex.com'', ''https://ex.com/about''])"
  "discover_pages_via_crawling (site_world doc) site site 1
     = (Returned (Some True), [''https://ex.com''])"
  by (simp_all add: fetch_sitemap_def parsed_sitemap_def site_world_def site_get_def
      site_parse_def site_def sitemap_url_def index_two_def index_one_def urlset_a_def
      urlset_b_def urlset_ab_def html_page_def strip_declaration_def child_sitemap_def
      read_urlset_def crawl_inside_try_def discover_pages_via_crawling_def site_links_def)

lemma site_documents:
  "sitemap_document (site_world urlset_ab) site
     = Some (XDict [(''urlset'', XDict [(''url'',
               XList [XDict [(''loc'', XStr ''https://ex.com/a'')],
                      XDict [(''loc'', XStr ''https://ex.com/b'')]])])])"
  "sitemap_document (site_world index_one) site
     = Some (XDict [(''sitemapindex'', XDict [(''sitemap'',
               XDict [(''loc'', XStr ''https://ex.com/s12.xml'')])])])"
  "sitemap_document (site_world html_page) site
     = Some (XDict [(''html'', XDict [(''body'', XStr ''Not found'')])])"
  by (simp_all add: sitemap_document_def site_world_def site_get_def site_def sitemap_url_def
      strip_declaration_def site_parse_def urlset_ab_def index_one_def index_two_def
      html_page_def urlset_a_def urlset_b_def)

lemma site_children:
  "sitemap_document (site_world index_two) site
     = Some (index_of [''https://ex.com/s1.xml'', ''https://ex.com/s2.xml''])"
  "child_document (site_world doc) ''https://ex.com/s1.xml'' = Some (urlset_one ''https://ex.com/a'')"
  "child_document (site_world doc) ''https://ex.com/s2.xml'' = Some (urlset_one ''https://ex.com/b'')"
  by (simp_all add: sitemap_document_def child_document_def site_world_def site_get_def site_def
      sitemap_url_def strip_declaration_def site_parse_def urlset_ab_def index_one_def
      index_two_def html_page_def urlset_a_def urlset_b_def index_of_def urlset_one_def)

lemma child_sitemap_urlset_one:
  assumes "child_document w l = Some (urlset_one u)" and "prefix b u" and "u \<notin> set pages"
  shows "child_sitemap w b m (XStr l) pages = pages @ [u]"
proof -
  have r: "fst (read_urlset b m (urlset_one u) pages) = pages @ [u]"
    using assms(2,3) by (simp add: read_urlset_def urlset_one_def)
  from assms(1) obtain resp c where
    "http_get w l = Some resp" "status_code resp = 200" "resp_content resp = Some c"
    "xml_parse w (strip_declaration c) = Some (urlset_one u)"
    by (auto simp: child_document_def split: option.splits if_splits bind_splits)
  with r show ?thesis
    by (simp add: child_sitemap_def)
qed

lemma index_loop_children:
  assumes "\<forall>c\<in>set children. child_document w (fst c) = Some (urlset_one (snd c))"
    and "\<forall>c\<in>set children. prefix b (snd c)"
    and "distinct (pages @ map snd children)"
  shows "index_loop w b m (map (\<lambda>l. XDict [(''loc'', XStr l)]) (map fst children)) pages
           = Some (pages @ map snd children)"
  using assms
proof (induction children arbitrary: pages)
  case Nil
  show ?case by simp
next
  case (Cons c children)
  have step: "child_sitemap w b m (XStr (fst c)) pages = pages @ [snd c]"
    by (rule child_sitemap_urlset_one) (use Cons.prems in auto)
  have "index_loop w b m (map (\<lambda>l. XDict [(''loc'', XStr l)]) (map fst children)) (pages @ [snd c])
          = Some ((pages @ [snd c]) @ map snd children)"
    by (rule Cons.IH) (use Cons.prems in auto)
  with step show ?case
    by simp
qed

lemma gather_all_failed:
  assumes "1 \<le> cfg_max_concurrent cfg" and "browser_launch w = None"
    and "\<forall>u\<in>set urls. page_fetch w u = None"
  shows "gather (map (bounded_scrape cfg w) urls) = Returned (map (\<lambda>u. None) urls)"
  using assms by (induction urls) (simp_all add: bounded_scrape_def scrape_page_def)

lemma successful_none: "successful (map (\<lambda>u. None) urls) = []"
  by (induction urls) (simp_all add: successful_def)

section \<open>Claims about discovery\<close>

text \<open>
  Claim C1 (what the code does). In the loop over the children of a sitemap index, the
  \<^verbatim>\<open>break\<close> at \<^verbatim>\<open>len(self.pages) >= max_pages\<close> ends the loop over the URLs of one
  child only. The loop over the children goes on, and every further child still adds its
  first new URL. So when each child of the index lists one page of the site, all of these
  pages are discovered, whatever \<open>max_pages\<close> is: there are more than \<open>max_pages\<close> of
  them as soon as the index has more than \<open>max_pages\<close> children. The direct urlset and
  the crawl, which have the same \<^verbatim>\<open>break\<close> in a single loop, stop at \<open>max_pages\<close>
  (\<open>fetch_sitemap_cap\<close>, \<open>discover_keeps\<close>), and on every path the pages start with the
  base URL and none occurs twice (\<open>fetch_sitemap_keeps\<close>).
\<close>

theorem sitemap_index_ignores_cap:
  assumes "sitemap_document w b = Some (index_of (map fst children))"
    and "\<forall>c\<in>set children. child_document w (fst c) = Some (urlset_one (snd c))"
    and "\<forall>c\<in>set children. prefix b (snd c)"
    and "distinct (map snd children)"
  shows "fetch_sitemap w b m [] = (Returned (Some (children \<noteq> [])), map snd children)"
proof -
  from assms(1) obtain r c where
    "http_get w (sitemap_url b) = Some r" "status_code r = 200" "resp_content r = Some c"
    "xml_parse w (strip_declaration c) = Some (index_of (map fst children))"
    by (auto simp: sitemap_document_def split: option.splits if_splits bind_splits)
  moreover have "index_loop w b m (map (\<lambda>l. XDict [(''loc'', XStr l)]) (map fst children)) []
      = Some ([] @ map snd children)"
    by (rule index_loop_children) (use assms in simp_all)
  ultimately show ?thesis
    by (simp add: fetch_sitemap_def parsed_sitemap_def index_of_def)
qed

theorem sitemap_index_two_children:
  "sitemap_document (site_world index_two) site
     = Some (index_of [''https://ex.com/s1.xml'', ''https://ex.com/s2.xml''])
   \<and> child_document (site_world index_two) ''https://ex.com/s1.xml''
       = Some (urlset_one ''https://ex.com/a'')
   \<and> child_document (site_world index_two) ''https://ex.com/s2.xml''
       = Some (urlset_one ''https://ex.com/b'')
   \<and> prefix site ''https://ex.com/a'' \<and> prefix site ''https://ex.com/b''
   \<and> fetch_sitemap (site_world index_two) site 1 []
       = (Returned (Some True), [''https://ex.com/a'', ''https://ex.com/b''])
   \<and> \<not> int (length (snd (fetch_sitemap (site_world index_two) site 1 []))) \<le> 1
   \<and> fetch_sitemap (site_world urlset_ab) site 1 []
       = (Returned (Some True), [''https://ex.com/a''])"
proof -
  have d: "sitemap_document (site_world index_two) site
     = Some (index_of (map fst [(''https://ex.com/s1.xml'', ''https://ex.com/a''),
                                (''https://ex.com/s2.xml'', ''https://ex.com/b'')]))"
    by (simp add: site_children)
  have c: "\<forall>c\<in>set [(''https://ex.com/s1.xml'', ''https://ex.com/a''),
                      (''https://ex.com/s2.xml'', ''https://ex.com/b'')].
             child_document (site_world index_two) (fst c) = Some (urlset_one (snd c))"
    by (simp add: site_children)
  have p: "prefix site ''https://ex.com/a''" "prefix site ''https://ex.com/b''"
    by (simp_all add: site_def)
  have f: "fetch_sitemap (site_world index_two) site 1 []
     = (Returned (Some True), [''https://ex.com/a'', ''https://ex.com/b''])"
    using sitemap_index_ignores_cap [OF d c, where m = 1] p by simp
  have u: "fetch_sitemap (site_world urlset_ab) site 1 []
     = (Returned (Some True), [''https://ex.com/a''])"
    by (rule site_facts)
  from f u p show ?thesis
    by (simp add: site_children)
qed

text \<open>
  Claim C2 (what the code does). When the \<^verbatim>\<open>sitemap\<close> entry of a sitemap index is a
  single mapping, which is what the parser gives for an index with one child, the loop
  over the entries runs over the keys of the mapping; a key is a string,
  \<^verbatim>\<open>sitemap_entry['loc']\<close> raises on it, and \<open>fetch_sitemap\<close> gives up the sitemap and
  crawls. The pages then are those of the crawl and not those the child lists, which an
  index of several children listing the same URLs does yield.
\<close>

theorem single_child_index_crawls:
  assumes "sitemap_document w b = Some sm"
    and "py_contains ''sitemapindex'' sm = Some True"
    and "py_getitem sm ''sitemapindex'' = Some si"
    and "py_getitem si ''sitemap'' = Some (XDict (kv # kvs))"
  shows "fetch_sitemap w b m pages = crawl_inside_try w b m"
proof -
  from assms(1) obtain r c where
    "http_get w (sitemap_url b) = Some r" "status_code r = 200" "resp_content r = Some c"
    "xml_parse w (strip_declaration c) = Some sm"
    by (auto simp: sitemap_document_def split: option.splits if_splits bind_splits)
  with assms(2,3,4) show ?thesis
    by (simp add: fetch_sitemap_def parsed_sitemap_def)
qed

theorem single_child_index_example:
  "sitemap_document (site_world index_one) site
     = Some (XDict [(''sitemapindex'', XDict [(''sitemap'',
               XDict [(''loc'', XStr ''https://ex.com/s12.xml'')])])])
   \<and> fetch_sitemap (site_world index_one) site 10 []
       = (Returned (Some True), [''https://ex.com'', ''https://ex.com/about''])
   \<and> fetch_sitemap (site_world index_two) site 10 []
       = (Returned (Some True), [''https://ex.com/a'', ''https://ex.com/b''])"
proof -
  have d: "sitemap_document (site_world index_one) site
     = Some (XDict [(''sitemapindex'', XDict [(''sitemap'',
               XDict [(''loc'', XStr ''https://ex.com/s12.xml'')])])])"
    by (rule site_documents)
  have "fetch_sitemap (site_world index_one) site 10 [] = crawl_inside_try (site_world index_one) site 10"
    by (rule single_child_index_crawls
          [OF d, where si = "XDict [(''sitemap'', XDict [(''loc'', XStr ''https://ex.com/s12.xml'')])]"
             and kv = "(''loc'', XStr ''https://ex.com/s12.xml'')" and kvs = "[]"])
       simp_all
  with d show ?thesis
    by (simp add: site_facts)
qed

text \<open>
  Claim C7 (what the code does). When the document at \<^verbatim>\<open>/sitemap.xml\<close> is fetched with
  status 200 and parses, and is neither a sitemap index nor has the entry \<^verbatim>\<open>urlset\<close>,
  \<open>fetch_sitemap\<close> reaches no \<^verbatim>\<open>return\<close>: it hands back \<^verbatim>\<open>None\<close>, leaves
  \<^verbatim>\<open>self.pages\<close> as it was and does not crawl, and \<open>scrape_all_pages\<close> on a fresh
  scraper ends with no result.
\<close>

theorem unexpected_structure_no_crawl:
  assumes "sitemap_document w b = Some sm"
    and "py_contains ''sitemapindex'' sm = Some False"
    and "py_contains ''urlset'' sm = Some False"
  shows "fetch_sitemap w b m pages = (Returned None, pages)
         \<and> scrape_all_pages cfg w b m pages = Returned None"
proof -
  from assms(1) obtain r c where
    "http_get w (sitemap_url b) = Some r" "status_code r = 200" "resp_content r = Some c"
    "xml_parse w (strip_declaration c) = Some sm"
    by (auto simp: sitemap_document_def split: option.splits if_splits bind_splits)
  with assms(2,3) have "fetch_sitemap w b m pages = (Returned None, pages)"
    by (simp add: fetch_sitemap_def parsed_sitemap_def read_urlset_def)
  then show ?thesis
    by (simp add: scrape_all_pages_def truthy_def)
qed

theorem html_sitemap_no_crawl:
  "sitemap_document (site_world html_page) site
     = Some (XDict [(''html'', XDict [(''body'', XStr ''Not found'')])])
   \<and> fetch_sitemap (site_world html_page) site 10 [] = (Returned None, [])
   \<and> scrape_all_pages site_config (site_world html_page) site 10 [] = Returned None
   \<and> discover_pages_via_crawling (site_world html_page) site site 10
       = (Returned (Some True), [''https://ex.com'', ''https://ex.com/about''])"
proof -
  have d: "sitemap_document (site_world html_page) site
     = Some (XDict [(''html'', XDict [(''body'', XStr ''Not found'')])])"
    by (rule site_documents)
  from unexpected_structure_no_crawl [OF d, of 10 "[]" site_config] d show ?thesis
    by (simp add: site_facts)
qed

section \<open>Claims about the crawl\<close>

text \<open>
  Claim C8 (as amended). When discovery succeeds, the semaphore admits at least one task
  (\<open>max_concurrent\<close> is 1 or more), the browser starts, and the fetch of every
  discovered page fails inside the \<^verbatim>\<open>try\<close> of \<open>scrape_page\<close>, then \<open>scrape_all_pages\<close>
  returns a crawl result, and raises nothing: the result has \<open>total_pages = 0\<close>,
  \<open>total_chunks = 0\<close> and an empty sequence of pages.
\<close>

theorem all_fetches_fail:
  assumes "fst (fetch_sitemap w b m pages0) = Returned (Some True)"
    and "1 \<le> cfg_max_concurrent cfg"
    and "browser_launch w = None"
    and "\<forall>u\<in>set (snd (fetch_sitemap w b m pages0)). page_fetch w u = None"
  shows "scrape_all_pages cfg w b m pages0
           = Returned (Some \<lparr>cr_domain = b, cr_domain_name = cfg_domain_name cfg,
                             cr_total_pages = 0, cr_timestamp = cfg_now cfg,
                             cr_total_chunks = 0, cr_pages = []\<rparr>)"
proof -
  obtain pages where f: "fetch_sitemap w b m pages0 = (Returned (Some True), pages)"
    using assms(1) by (cases "fetch_sitemap w b m pages0") auto
  with assms(4) have "\<forall>u\<in>set (limit_pages m pages). page_fetch w u = None"
    using limit_pages_subset [of m pages] by auto
  from gather_all_failed [OF assms(2,3) this] f assms(2) show ?thesis
    by (simp add: scrape_all_pages_def truthy_def successful_none)
qed

theorem all_fetches_fail_example:
  "fetch_sitemap (site_world urlset_ab) site 10 []
     = (Returned (Some True), [''https://ex.com/a'', ''https://ex.com/b''])
   \<and> 1 \<le> cfg_max_concurrent site_config
   \<and> browser_launch (site_world urlset_ab) = None
   \<and> page_fetch (site_world urlset_ab) ''https://ex.com/a'' = None
   \<and> page_fetch (site_world urlset_ab) ''https://ex.com/b'' = None
   \<and> scrape_all_pages site_config (site_world urlset_ab) site 10 []
       = Returned (Some \<lparr>cr_domain = ''https://ex.com'', cr_domain_name = ''ex.com'',
                         cr_total_pages = 0, cr_timestamp = ''2024-01-01'',
                         cr_total_chunks = 0, cr_pages = []\<rparr>)"
proof -
  have l: "browser_launch (site_world urlset_ab) = None"
    and p: "page_fetch (site_world urlset_ab) u = None" for u
    by (simp_all add: site_world_def)
  have k: "1 \<le> cfg_max_concurrent site_config"
    by (simp add: site_config_def)
  have f: "fetch_sitemap (site_world urlset_ab) site 10 []
     = (Returned (Some True), [''https://ex.com/a'', ''https://ex.com/b''])"
    by (rule site_facts)
  have h1: "fst (fetch_sitemap (site_world urlset_ab) site 10 []) = Returned (Some True)"
    and h4: "\<forall>u\<in>set (snd (fetch_sitemap (site_world urlset_ab) site 10 [])).
               page_fetch (site_world urlset_ab) u = None"
    by (simp_all add: f p)
  from all_fetches_fail [OF h1 k l h4] f k l p
  show ?thesis
    by (simp add: site_config_def site_def)
qed

text \<open>
  The claim as stated fails in two ways. \<open>scrape_page\<close> starts the browser before its
  \<^verbatim>\<open>try\<close>, whose handler closes that browser: when the browser cannot be started, the
  exception leaves \<open>scrape_page\<close> and, through \<^verbatim>\<open>asyncio.gather\<close>,
  \<open>scrape_all_pages\<close>, although the sitemap gave two pages and no page could be fetched.
  And with \<open>max_concurrent = 0\<close> the semaphore admits no task, so \<open>scrape_all_pages\<close>
  never returns; with a negative value, making the semaphore raises.
\<close>

theorem browser_failure_raises:
  "fetch_sitemap (site_world_no_browser urlset_ab) site 10 []
     = (Returned (Some True), [''https://ex.com/a'', ''https://ex.com/b''])
   \<and> page_fetch (site_world_no_browser urlset_ab) ''https://ex.com/a'' = None
   \<and> page_fetch (site_world_no_browser urlset_ab) ''https://ex.com/b'' = None
   \<and> scrape_all_pages site_config (site_world_no_browser urlset_ab) site 10 []
       = Raises browser_missing
   \<and> scrape_all_pages (site_config\<lparr>cfg_max_concurrent := 0\<rparr>) (site_world urlset_ab) site 10 []
       = Pending
   \<and> scrape_all_pages (site_config\<lparr>cfg_max_concurrent := - 1\<rparr>) (site_world urlset_ab) site 10 []
       = Raises semaphore_error"
proof -
  have f: "fetch_sitemap (site_world_no_browser urlset_ab) site 10 []
     = (Returned (Some True), [''https://ex.com/a'', ''https://ex.com/b''])"
    by (simp add: fetch_sitemap_def parsed_sitemap_def site_world_no_browser_def site_world_def
        site_get_def site_parse_def site_def sitemap_url_def index_two_def index_one_def
        urlset_a_def urlset_b_def urlset_ab_def html_page_def strip_declaration_def
        read_urlset_def)
  have g: "fetch_sitemap (site_world urlset_ab) site 10 []
     = (Returned (Some True), [''https://ex.com/a'', ''https://ex.com/b''])"
    by (rule site_facts)
  have p: "page_fetch (site_world_no_browser urlset_ab) u = None" for u
    by (simp add: site_world_no_browser_def site_world_def)
  have r: "scrape_all_pages site_config (site_world_no_browser urlset_ab) site 10 []
      = Raises browser_missing"
    unfolding scrape_all_pages_def f
    by (simp add: truthy_def limit_pages_def bounded_scrape_def scrape_page_def
        site_config_def site_world_no_browser_def site_world_def)
  have z: "scrape_all_pages (site_config\<lparr>cfg_max_concurrent := 0\<rparr>) (site_world urlset_ab) site 10 []
      = Pending"
    unfolding scrape_all_pages_def g
    by (simp add: truthy_def limit_pages_def bounded_scrape_def site_config_def)
  have n: "scrape_all_pages (site_config\<lparr>cfg_max_concurrent := - 1\<rparr>) (site_world urlset_ab) site 10 []
      = Raises semaphore_error"
    unfolding scrape_all_pages_def g
    by (simp add: truthy_def site_config_def)
  from f p r z n show ?thesis
    by simp
qed
end
